theory Spec2Isabelle
  imports Main
begin

section \<open>Compile-time configuration of convolution.cu\<close>

text \<open>
  The kernels of \<^verbatim>\<open>examples/cuda/convolution.cu\<close> are configured by preprocessor
  macros. \<^verbatim>\<open>image_height\<close>, \<^verbatim>\<open>image_width\<close>, \<^verbatim>\<open>filter_height\<close> and
  \<^verbatim>\<open>filter_width\<close> are defined at the top of the file; \<^verbatim>\<open>block_size_x\<close>,
  \<^verbatim>\<open>block_size_y\<close>, \<^verbatim>\<open>tile_size_x\<close> and \<^verbatim>\<open>tile_size_y\<close> are used but not
  defined there (the tuner inserts them), so all eight are fields of a record and every
  result below holds for each choice of them.

  Integers. The macros, the thread indices and the loop counters are small non-negative
  \<^verbatim>\<open>int\<close> values and are modelled on \<^typ>\<open>nat\<close>. The block origins \<^verbatim>\<open>by\<close>, \<^verbatim>\<open>bx\<close>
  and the global coordinates of the naive kernel are products and sums of \<^verbatim>\<open>unsigned\<close>
  values (\<^verbatim>\<open>blockIdx\<close>, \<^verbatim>\<open>blockDim\<close>, \<^verbatim>\<open>threadIdx\<close>) stored in an \<^verbatim>\<open>int\<close>: they
  wrap around modulo \<open>2^32\<close> and can be negative, so they, the global coordinates
  \<^verbatim>\<open>y\<close>, \<^verbatim>\<open>x\<close> and the indices into the global buffers are modelled on \<^typ>\<open>int\<close>.
  The overflow of a signed addition or multiplication is undefined behaviour and is not
  modelled: signed arithmetic is that of \<^typ>\<open>int\<close>.
\<close>

record config =
  image_height :: nat
  image_width :: nat
  filter_height :: nat
  filter_width :: nat
  block_size_x :: nat
  block_size_y :: nat
  tile_size_x :: nat
  tile_size_y :: nat

text \<open>The values the source file itself fixes (lines 1-4), for given block and tile sizes.\<close>

definition convolution_cu :: "nat \<Rightarrow> nat \<Rightarrow> nat \<Rightarrow> nat \<Rightarrow> config" where
  "convolution_cu bsx bsy tsx tsy =
     \<lparr>image_height = 4096, image_width = 4096, filter_height = 17, filter_width = 17,
      block_size_x = bsx, block_size_y = bsy, tile_size_x = tsx, tile_size_y = tsy\<rparr>"

definition border_height :: "config \<Rightarrow> nat" where
  "border_height c = (filter_height c div 2) * 2"

definition border_width :: "config \<Rightarrow> nat" where
  "border_width c = (filter_width c div 2) * 2"

definition input_height :: "config \<Rightarrow> nat" where
  "input_height c = image_height c + border_height c"

definition input_width :: "config \<Rightarrow> nat" where
  "input_width c = image_width c + border_width c"

definition i_end :: "config \<Rightarrow> nat" where
  "i_end c = min (block_size_y c * tile_size_y c + border_height c) (input_height c)"

definition j_end :: "config \<Rightarrow> nat" where
  "j_end c = min (block_size_x c * tile_size_x c + border_width c) (input_width c)"

text \<open>The declared extents of \<^verbatim>\<open>sh_input\<close> (line 23).\<close>

definition sh_rows :: "config \<Rightarrow> nat" where
  "sh_rows c = block_size_y c * tile_size_y c + border_height c"

definition sh_cols :: "config \<Rightarrow> nat" where
  "sh_cols c = block_size_x c * tile_size_x c + border_width c"

text \<open>
  The condition of the two \<^verbatim>\<open>#if\<close> directives (lines 30 and 75): when it holds the
  boundary-checked variants of the load and of the store are compiled, otherwise the
  unconditional ones.
\<close>

definition boundary_mode :: "config \<Rightarrow> bool" where
  "boundary_mode c \<longleftrightarrow>
     image_height c mod (block_size_y c * tile_size_y c) \<noteq> 0 \<or>
     image_width c mod (block_size_x c * tile_size_x c) \<noteq> 0"

text \<open>
  The configurations the kernel is meant for: a block has at least one thread and a
  thread at least one output element per axis (the divisors of the \<^verbatim>\<open>#if\<close> directives
  are then non-zero), and the image dimensions are \<^verbatim>\<open>int\<close> constants.
\<close>

definition config_ok :: "config \<Rightarrow> bool" where
  "config_ok c \<longleftrightarrow>
     block_size_y c * tile_size_y c \<noteq> 0 \<and> block_size_x c * tile_size_x c \<noteq> 0 \<and>
     image_height c < 2 ^ 31 \<and> image_width c < 2 ^ 31"

text \<open>
  An \<^verbatim>\<open>unsigned\<close> value, computed modulo \<open>2^32\<close>, stored in an \<^verbatim>\<open>int\<close>.
\<close>

definition unsigned_to_int :: "nat \<Rightarrow> int" where
  "unsigned_to_int n =
     (let m = n mod 2 ^ 32 in if m < 2 ^ 31 then int m else int m - 2 ^ 32)"

text \<open>The launch configuration: \<^verbatim>\<open>gridDim\<close> and \<^verbatim>\<open>blockDim\<close>.\<close>

record launch =
  grid_dim_x :: nat
  grid_dim_y :: nat
  block_dim_x :: nat
  block_dim_y :: nat

text \<open>
  The launch the tiled kernel is written for: one thread per \<^verbatim>\<open>block_size\<close> position
  and as many blocks as it takes to cover the image, each block covering
  \<^verbatim>\<open>block_size * tile_size\<close> output elements per axis.
\<close>

definition launch_ok :: "config \<Rightarrow> launch \<Rightarrow> bool" where
  "launch_ok c L \<longleftrightarrow>
     block_dim_x L = block_size_x c \<and> block_dim_y L = block_size_y c \<and>
     grid_dim_x L = (image_width c + block_size_x c * tile_size_x c - 1)
                      div (block_size_x c * tile_size_x c) \<and>
     grid_dim_y L = (image_height c + block_size_y c * tile_size_y c - 1)
                      div (block_size_y c * tile_size_y c)"


text \<open>
  A launch of the naive kernel only has to cover the image with threads, with thread
  coordinates that do not wrap around.
\<close>

definition naive_launch_ok :: "config \<Rightarrow> launch \<Rightarrow> bool" where
  "naive_launch_ok c L \<longleftrightarrow>
     image_width c \<le> grid_dim_x L * block_dim_x L \<and>
     image_height c \<le> grid_dim_y L * block_dim_y L \<and>
     grid_dim_x L * block_dim_x L \<le> 2 ^ 31 \<and> grid_dim_y L * block_dim_y L \<le> 2 ^ 31"


section \<open>Outcomes, memory accesses and loops\<close>

text \<open>
  An access outside a buffer is undefined behaviour in the source; the model makes it an
  explicit fault that ends the run. A run that does not return has the value \<open>None\<close>.
\<close>

datatype fault = InputRange | FilterRange | ScratchRange | OutputRange

type_synonym 's res = "(fault + 's) option"

definition bind_res :: "'s res \<Rightarrow> ('s \<Rightarrow> 't res) \<Rightarrow> 't res" where
  "bind_res m k =
     (case m of None \<Rightarrow> None | Some (Inl f) \<Rightarrow> Some (Inl f) | Some (Inr s) \<Rightarrow> k s)"

text \<open>
  \<^verbatim>\<open>for (int i = start; i < e; i += st) body\<close>. With \<open>st = 0\<close> and a body that
  returns, the loop does not return.
\<close>

partial_function (option) for_loop ::
  "(nat \<Rightarrow> 's \<Rightarrow> (fault + 's) option) \<Rightarrow> nat \<Rightarrow> nat \<Rightarrow> nat \<Rightarrow> 's \<Rightarrow> (fault + 's) option"
where
  "for_loop body i e st s =
     (if i < e then
        (case body i s of
           None \<Rightarrow> None
         | Some (Inl f) \<Rightarrow> Some (Inl f)
         | Some (Inr s') \<Rightarrow> for_loop body (i + st) e st s')
      else Some (Inr s))"

declare for_loop.simps [code]

text \<open>
  A read of a global buffer (\<^verbatim>\<open>input\<close>, \<^verbatim>\<open>filter\<close>, \<^verbatim>\<open>d_filter\<close>), at an index
  that is a loop counter expression, and at an index computed from global coordinates.
\<close>

definition load :: "fault \<Rightarrow> 'a list \<Rightarrow> nat \<Rightarrow> 'a res" where
  "load f buf k = (if k < length buf then Some (Inr (buf ! k)) else Some (Inl f))"

definition load_at :: "fault \<Rightarrow> 'a list \<Rightarrow> int \<Rightarrow> 'a res" where
  "load_at f buf k =
     (if 0 \<le> k \<and> k < int (length buf) then Some (Inr (buf ! nat k)) else Some (Inl f))"

text \<open>
  Global memory as a kernel sees it: the output buffer, and a ghost list of the
  coordinates \<open>(y, x)\<close> of every store to it, in program order.
\<close>

record 'a gmem =
  output_buf :: "'a list"
  out_writes :: "(int \<times> int) list"

text \<open>\<^verbatim>\<open>output[y * image_width + x] = v\<close>\<close>

definition write_output ::
  "config \<Rightarrow> int \<Rightarrow> int \<Rightarrow> 'a \<Rightarrow> ('a, 'm) gmem_scheme \<Rightarrow> ('a, 'm) gmem_scheme res" where
  "write_output c y x v s =
     (let k = y * int (image_width c) + x in
      if 0 \<le> k \<and> k < int (length (output_buf s))
      then Some (Inr (s\<lparr>output_buf := (output_buf s)[nat k := v],
                        out_writes := out_writes s @ [(y, x)]\<rparr>))
      else Some (Inl OutputRange))"


section \<open>The naive kernel (lines 93-110)\<close>

text \<open>
  The values are of any type with \<open>0\<close>, \<open>+\<close> and \<open>*\<close>; no law of arithmetic is assumed
  by the definitions, so they can be read with exact numbers or with rounding operations.
\<close>

definition naive_term ::
  "config \<Rightarrow> 'a::{zero,plus,times} list \<Rightarrow> 'a list \<Rightarrow> int \<Rightarrow> int \<Rightarrow> nat \<Rightarrow> nat \<Rightarrow> 'a \<Rightarrow> 'a res" where
  "naive_term c input filter_buf y x j i sum_n =
     bind_res (load_at InputRange input ((y + int j) * int (input_width c) + (x + int i))) (\<lambda>v.
     bind_res (load FilterRange filter_buf (j * filter_width c + i)) (\<lambda>w.
     Some (Inr (sum_n + v * w))))"

definition naive_sum ::
  "config \<Rightarrow> 'a::{zero,plus,times} list \<Rightarrow> 'a list \<Rightarrow> int \<Rightarrow> int \<Rightarrow> 'a res" where
  "naive_sum c input filter_buf y x =
     for_loop (\<lambda>j. for_loop (\<lambda>i. naive_term c input filter_buf y x j i)
                      0 (filter_width c) 1)
       0 (filter_height c) 1 0"

text \<open>One thread, with \<open>y\<close> and \<open>x\<close> its global coordinates (lines 95-96).\<close>

definition naive_thread ::
  "config \<Rightarrow> 'a::{zero,plus,times} list \<Rightarrow> 'a list \<Rightarrow> int \<Rightarrow> int \<Rightarrow> 'a gmem \<Rightarrow> 'a gmem res" where
  "naive_thread c input filter_buf y x s =
     (if y < int (image_height c) \<and> x < int (image_width c)
      then bind_res (naive_sum c input filter_buf y x) (\<lambda>sum_n. write_output c y x sum_n s)
      else Some (Inr s))"

text \<open>
  The whole grid, its threads run one after the other: blocks in row-major order and,
  inside a block, threads in row-major order.
\<close>

definition convolution_naive ::
  "config \<Rightarrow> launch \<Rightarrow> 'a::{zero,plus,times} list \<Rightarrow> 'a list \<Rightarrow> 'a gmem \<Rightarrow> 'a gmem res" where
  "convolution_naive c L input filter_buf =
     for_loop (\<lambda>bidy. for_loop (\<lambda>bidx.
       for_loop (\<lambda>tidy. for_loop (\<lambda>tidx.
         naive_thread c input filter_buf
           (unsigned_to_int (bidy * block_dim_y L + tidy))
           (unsigned_to_int (bidx * block_dim_x L + tidx)))
         0 (block_dim_x L) 1) 0 (block_dim_y L) 1)
       0 (grid_dim_x L) 1) 0 (grid_dim_y L) 1"


section \<open>The tiled kernel (lines 16-87)\<close>

text \<open>
  The state of a thread of the tiled kernel: global memory, the \<^verbatim>\<open>__shared__\<close> array
  \<^verbatim>\<open>sh_input\<close> of its block, and its registers \<^verbatim>\<open>sum[yi][xi]\<close>. A position of
  \<^verbatim>\<open>sh_input\<close> that has not been written since the block started is \<open>None\<close>: its content
  is whatever the memory held. \<open>sh_reads\<close> is a ghost list of the reads of
  \<^verbatim>\<open>sh_input\<close>, each as \<open>(yi, xi, row, column)\<close>: the register it was read for and the
  position read.
\<close>

record 'a kstate = "'a gmem" +
  sh_input :: "nat \<times> nat \<Rightarrow> 'a option"
  sum_reg :: "nat \<times> nat \<Rightarrow> 'a"
  sh_reads :: "(nat \<times> nat \<times> nat \<times> nat) list"

text \<open>\<^verbatim>\<open>sh_input[i][j] = v\<close>\<close>

definition sh_store :: "config \<Rightarrow> nat \<Rightarrow> nat \<Rightarrow> 'a \<Rightarrow> 'a kstate \<Rightarrow> 'a kstate res" where
  "sh_store c i j v s =
     (if i < sh_rows c \<and> j < sh_cols c
      then Some (Inr (s\<lparr>sh_input := (sh_input s)((i, j) \<mapsto> v)\<rparr>))
      else Some (Inl ScratchRange))"

text \<open>
  Reading \<^verbatim>\<open>sh_input[r][q]\<close>; \<open>junk\<close> gives the content of the positions that were
  never written.
\<close>

definition sh_content :: "(nat \<times> nat \<Rightarrow> 'a) \<Rightarrow> (nat \<times> nat \<Rightarrow> 'a option) \<Rightarrow> nat \<times> nat \<Rightarrow> 'a" where
  "sh_content junk sh p = (case sh p of Some v \<Rightarrow> v | None \<Rightarrow> junk p)"

definition sh_load :: "config \<Rightarrow> (nat \<times> nat \<Rightarrow> 'a) \<Rightarrow> nat \<Rightarrow> nat \<Rightarrow> 'a kstate \<Rightarrow> 'a res" where
  "sh_load c junk r q s =
     (if r < sh_rows c \<and> q < sh_cols c
      then Some (Inr (sh_content junk (sh_input s) (r, q)))
      else Some (Inl ScratchRange))"

text \<open>
  Lines 30-38, the body of the staging loops. \<open>chk\<close> selects the branch of the
  \<^verbatim>\<open>#if\<close>: the boundary-checked load or the unconditional one.
\<close>

definition stage_elem ::
  "bool \<Rightarrow> config \<Rightarrow> 'a list \<Rightarrow> int \<Rightarrow> int \<Rightarrow> nat \<Rightarrow> nat \<Rightarrow> 'a kstate \<Rightarrow> 'a kstate res" where
  "stage_elem chk c input b_y b_x i j s =
     (if chk then
        (let y = b_y + int i; x = b_x + int j in
         if y < int (input_height c) \<and> x < int (input_width c)
         then bind_res (load_at InputRange input (y * int (input_width c) + x))
                (\<lambda>v. sh_store c i j v s)
         else Some (Inr s))
      else bind_res (load_at InputRange input
                       ((b_y + int i) * int (input_width c) + (b_x + int j)))
             (\<lambda>v. sh_store c i j v s))"

text \<open>Lines 27-40, for the thread \<open>(ty, tx)\<close> of the block with origin \<open>(b_y, b_x)\<close>.\<close>

definition stage_thread ::
  "bool \<Rightarrow> config \<Rightarrow> 'a list \<Rightarrow> int \<Rightarrow> int \<Rightarrow> nat \<Rightarrow> nat \<Rightarrow> 'a kstate \<Rightarrow> 'a kstate res" where
  "stage_thread chk c input b_y b_x ty tx =
     for_loop (\<lambda>i. for_loop (\<lambda>j. stage_elem chk c input b_y b_x i j)
                      tx (j_end c) (block_size_x c))
       ty (i_end c) (block_size_y c)"

text \<open>Lines 44-51.\<close>

definition zero_sums :: "config \<Rightarrow> 'a::{zero,plus,times} kstate \<Rightarrow> 'a kstate res" where
  "zero_sums c =
     for_loop (\<lambda>yi. for_loop (\<lambda>xi s. Some (Inr (s\<lparr>sum_reg := (sum_reg s)((yi, xi) := 0)\<rparr>)))
                       0 (tile_size_x c) 1)
       0 (tile_size_y c) 1"

text \<open>Line 63.\<close>

definition acc_elem ::
  "config \<Rightarrow> 'a::{zero,plus,times} list \<Rightarrow> (nat \<times> nat \<Rightarrow> 'a) \<Rightarrow> nat \<Rightarrow> nat \<Rightarrow>
   nat \<Rightarrow> nat \<Rightarrow> nat \<Rightarrow> nat \<Rightarrow> 'a kstate \<Rightarrow> 'a kstate res" where
  "acc_elem c d_filter junk ty tx i j yi xi s =
     bind_res (sh_load c junk (ty + yi * block_size_y c + i) (tx + xi * block_size_x c + j) s)
       (\<lambda>v.
     bind_res (load FilterRange d_filter (i * filter_width c + j)) (\<lambda>w.
     Some (Inr (s\<lparr>sum_reg := (sum_reg s)((yi, xi) := sum_reg s (yi, xi) + v * w),
                  sh_reads := sh_reads s @
                    [(yi, xi, ty + yi * block_size_y c + i, tx + xi * block_size_x c + j)]\<rparr>))))"

text \<open>Lines 55-68.\<close>

definition accumulate ::
  "config \<Rightarrow> 'a::{zero,plus,times} list \<Rightarrow> (nat \<times> nat \<Rightarrow> 'a) \<Rightarrow> nat \<Rightarrow> nat \<Rightarrow>
   'a kstate \<Rightarrow> 'a kstate res" where
  "accumulate c d_filter junk ty tx =
     for_loop (\<lambda>i. for_loop (\<lambda>j.
       for_loop (\<lambda>yi. for_loop (\<lambda>xi. acc_elem c d_filter junk ty tx i j yi xi)
                         0 (tile_size_x c) 1) 0 (tile_size_y c) 1)
       0 (filter_width c) 1) 0 (filter_height c) 1"

text \<open>Lines 75-83, the body of the store loops, again with \<open>chk\<close> for the \<^verbatim>\<open>#if\<close>.\<close>

definition store_elem ::
  "bool \<Rightarrow> config \<Rightarrow> int \<Rightarrow> int \<Rightarrow> nat \<Rightarrow> nat \<Rightarrow> nat \<Rightarrow> nat \<Rightarrow> 'a kstate \<Rightarrow> 'a kstate res" where
  "store_elem chk c b_y b_x ty tx yi xi s =
     (if chk then
        (let y = b_y + int ty + int (yi * block_size_y c);
             x = b_x + int tx + int (xi * block_size_x c) in
         if y < int (image_height c) \<and> x < int (image_width c)
         then write_output c y x (sum_reg s (yi, xi)) s
         else Some (Inr s))
      else write_output c (b_y + int ty + int (yi * block_size_y c))
             (b_x + int tx + int (xi * block_size_x c)) (sum_reg s (yi, xi)) s)"

text \<open>Lines 72-85.\<close>

definition store_sums ::
  "bool \<Rightarrow> config \<Rightarrow> int \<Rightarrow> int \<Rightarrow> nat \<Rightarrow> nat \<Rightarrow> 'a kstate \<Rightarrow> 'a kstate res" where
  "store_sums chk c b_y b_x ty tx =
     for_loop (\<lambda>yi. for_loop (\<lambda>xi. store_elem chk c b_y b_x ty tx yi xi)
                       0 (tile_size_x c) 1)
       0 (tile_size_y c) 1"

text \<open>What a thread does after \<^verbatim>\<open>__syncthreads()\<close>: lines 43-86.\<close>

definition compute_thread ::
  "bool \<Rightarrow> config \<Rightarrow> 'a::{zero,plus,times} list \<Rightarrow> (nat \<times> nat \<Rightarrow> 'a) \<Rightarrow>
   int \<Rightarrow> int \<Rightarrow> nat \<Rightarrow> nat \<Rightarrow> 'a kstate \<Rightarrow> 'a kstate res" where
  "compute_thread chk c d_filter junk b_y b_x ty tx s =
     bind_res (zero_sums c s) (\<lambda>s1.
     bind_res (accumulate c d_filter junk ty tx s1) (\<lambda>s2.
     store_sums chk c b_y b_x ty tx s2))"

text \<open>
  The staging phase of one block: every thread of the block runs lines 27-40. The
  threads are run one after the other, in row-major order.
\<close>

definition stage_block ::
  "bool \<Rightarrow> config \<Rightarrow> launch \<Rightarrow> 'a list \<Rightarrow> int \<Rightarrow> int \<Rightarrow> 'a kstate \<Rightarrow> 'a kstate res" where
  "stage_block chk c L input b_y b_x =
     for_loop (\<lambda>ty. for_loop (\<lambda>tx. stage_thread chk c input b_y b_x ty tx)
                       0 (block_dim_x L) 1)
       0 (block_dim_y L) 1"

definition compute_block ::
  "bool \<Rightarrow> config \<Rightarrow> launch \<Rightarrow> 'a::{zero,plus,times} list \<Rightarrow> (nat \<times> nat \<Rightarrow> 'a) \<Rightarrow>
   int \<Rightarrow> int \<Rightarrow> 'a kstate \<Rightarrow> 'a kstate res" where
  "compute_block chk c L d_filter junk b_y b_x =
     for_loop (\<lambda>ty. for_loop (\<lambda>tx. compute_thread chk c d_filter junk b_y b_x ty tx)
                       0 (block_dim_x L) 1)
       0 (block_dim_y L) 1"

text \<open>
  One thread block, \<open>(bidy, bidx)\<close> its \<^verbatim>\<open>blockIdx\<close>: a fresh \<^verbatim>\<open>sh_input\<close>, the staging
  phase of all its threads, the barrier of line 41, then the rest of all its threads.
  \<open>b_y\<close> and \<open>b_x\<close> are lines 19-20.
\<close>

definition run_block ::
  "bool \<Rightarrow> config \<Rightarrow> launch \<Rightarrow> (nat \<times> nat \<Rightarrow> nat \<times> nat \<Rightarrow> 'a) \<Rightarrow>
   'a::{zero,plus,times} list \<Rightarrow> 'a list \<Rightarrow> nat \<Rightarrow> nat \<Rightarrow> 'a kstate \<Rightarrow> 'a kstate res" where
  "run_block chk c L garbage input d_filter bidy bidx s =
     (let b_y = unsigned_to_int (bidy * block_size_y c * tile_size_y c);
          b_x = unsigned_to_int (bidx * block_size_x c * tile_size_x c)
      in bind_res (stage_block chk c L input b_y b_x (s\<lparr>sh_input := Map.empty\<rparr>))
           (compute_block chk c L d_filter (garbage (bidy, bidx)) b_y b_x))"

text \<open>
  The whole grid, block after block. \<open>garbage\<close> is the content of the shared memory each
  block finds; \<open>filter_arg\<close> is the third parameter of the kernel, which its body
  never mentions; \<open>d_filter\<close> is the \<^verbatim>\<open>__constant__\<close> array of line 14.
\<close>

definition tiled_kernel ::
  "bool \<Rightarrow> config \<Rightarrow> launch \<Rightarrow> (nat \<times> nat \<Rightarrow> nat \<times> nat \<Rightarrow> 'a) \<Rightarrow>
   'a::{zero,plus,times} list \<Rightarrow> 'a list \<Rightarrow> 'a list \<Rightarrow> 'a kstate \<Rightarrow> 'a kstate res" where
  "tiled_kernel chk c L garbage input d_filter filter_arg =
     for_loop (\<lambda>bidy. for_loop (\<lambda>bidx. run_block chk c L garbage input d_filter bidy bidx)
                         0 (grid_dim_x L) 1)
       0 (grid_dim_y L) 1"

text \<open>The kernel as compiled: the \<^verbatim>\<open>#if\<close> picks the variant from the configuration.\<close>

definition convolution_kernel ::
  "config \<Rightarrow> launch \<Rightarrow> (nat \<times> nat \<Rightarrow> nat \<times> nat \<Rightarrow> 'a) \<Rightarrow>
   'a::{zero,plus,times} list \<Rightarrow> 'a list \<Rightarrow> 'a list \<Rightarrow> 'a kstate \<Rightarrow> 'a kstate res" where
  "convolution_kernel c = tiled_kernel (boundary_mode c) c"


section \<open>Frames of the phases\<close>

text \<open>
  \<open>stage_frame s s'\<close>: from \<open>s\<close> to \<open>s'\<close> nothing but \<^verbatim>\<open>sh_input\<close> may have changed.
  \<open>compute_frame s s'\<close>: neither global memory nor \<^verbatim>\<open>sh_input\<close> has changed.
\<close>

definition stage_frame :: "'a kstate \<Rightarrow> 'a kstate \<Rightarrow> bool" where
  "stage_frame s s' \<longleftrightarrow>
     output_buf s' = output_buf s \<and> out_writes s' = out_writes s \<and>
     sum_reg s' = sum_reg s \<and> sh_reads s' = sh_reads s"

definition compute_frame :: "'a kstate \<Rightarrow> 'a kstate \<Rightarrow> bool" where
  "compute_frame s s' \<longleftrightarrow>
     output_buf s' = output_buf s \<and> out_writes s' = out_writes s \<and>
     sh_input s' = sh_input s"


text \<open>
  \<open>res_sat F P r\<close>: if the run \<open>r\<close> ends in a fault, the fault satisfies \<open>F\<close>; if it
  ends in a state, the state satisfies \<open>P\<close>.
\<close>

definition res_sat :: "(fault \<Rightarrow> bool) \<Rightarrow> ('s \<Rightarrow> bool) \<Rightarrow> 's res \<Rightarrow> bool" where
  "res_sat F P r = (case r of None \<Rightarrow> True | Some (Inl f) \<Rightarrow> F f | Some (Inr s) \<Rightarrow> P s)"

text \<open>
  The output elements of the block with the non-negative origin \<open>(b_y, b_x)\<close> all lie
  inside the image.
\<close>

definition block_inside :: "config \<Rightarrow> nat \<Rightarrow> nat \<Rightarrow> bool" where
  "block_inside c b_y b_x \<longleftrightarrow>
     b_y + block_size_y c * tile_size_y c \<le> image_height c \<and>
     b_x + block_size_x c * tile_size_x c \<le> image_width c"





section \<open>Reference values and small instances\<close>

text \<open>
  The state a launch of the tiled kernel starts from: the output buffer as the caller
  allocated it, nothing staged, registers with the content \<open>regs\<close>, empty ghost lists.
\<close>

definition launch_state :: "'a list \<Rightarrow> (nat \<times> nat \<Rightarrow> 'a) \<Rightarrow> 'a kstate" where
  "launch_state out regs =
     \<lparr>output_buf = out, out_writes = [], sh_input = Map.empty, sum_reg = regs, sh_reads = []\<rparr>"

definition launch_mem :: "'a list \<Rightarrow> 'a gmem" where
  "launch_mem out = \<lparr>output_buf = out, out_writes = []\<rparr>"

text \<open>
  The weighted sum for the output element \<open>(y, x)\<close>, added up in the order in which both
  kernels visit the filter: row by row, starting from \<open>0\<close>.
\<close>

definition conv_at ::
  "config \<Rightarrow> 'a::{zero,plus,times} list \<Rightarrow> 'a list \<Rightarrow> nat \<Rightarrow> nat \<Rightarrow> 'a" where
  "conv_at c input filter_buf y x =
     fold (\<lambda>j. fold (\<lambda>i a. a + input ! ((y + j) * input_width c + (x + i)) *
                                filter_buf ! (j * filter_width c + i))
                   [0..<filter_width c])
       [0..<filter_height c] 0"

text \<open>
  Following the words of the specification: the sum over \<open>(j, i)\<close> of
  \<open>input[y+j][x+i] * filter[j][i]\<close>, in a type where the order of a sum is irrelevant.
\<close>

definition weighted_sum ::
  "config \<Rightarrow> 'a::{comm_monoid_add,times} list \<Rightarrow> 'a list \<Rightarrow> nat \<Rightarrow> nat \<Rightarrow> 'a" where
  "weighted_sum c input filter_buf y x =
     (\<Sum>j<filter_height c. \<Sum>i<filter_width c.
        input ! ((y + j) * input_width c + (x + i)) * filter_buf ! (j * filter_width c + i))"

text \<open>
  A configuration whose image height is not a multiple of the rows a block covers:
  a \<open>3 \<times> 1\<close> image, a \<open>1 \<times> 1\<close> filter, blocks of \<open>2 \<times> 1\<close> threads, one output
  element per thread; and its launch, two blocks of two threads.
\<close>

definition edge_cfg :: config where
  "edge_cfg = \<lparr>image_height = 3, image_width = 1, filter_height = 1, filter_width = 1,
                block_size_x = 1, block_size_y = 2, tile_size_x = 1, tile_size_y = 1\<rparr>"

definition edge_launch :: launch where
  "edge_launch = \<lparr>grid_dim_x = 1, grid_dim_y = 2, block_dim_x = 1, block_dim_y = 2\<rparr>"

text \<open>
  A configuration that the blocks tile exactly: a \<open>2 \<times> 2\<close> image, a \<open>3 \<times> 3\<close> filter,
  blocks of \<open>1 \<times> 1\<close> threads, \<open>2 \<times> 1\<close> output elements per thread.
\<close>

definition even_cfg :: config where
  "even_cfg = \<lparr>image_height = 2, image_width = 2, filter_height = 3, filter_width = 3,
                block_size_x = 1, block_size_y = 1, tile_size_x = 1, tile_size_y = 2\<rparr>"

definition even_launch :: launch where
  "even_launch = \<lparr>grid_dim_x = 2, grid_dim_y = 1, block_dim_x = 1, block_dim_y = 1\<rparr>"




section \<open>What the staging phase has to establish\<close>

text \<open>
  The positions of \<^verbatim>\<open>sh_input\<close> that the staging loops of the block with the
  non-negative origin \<open>(b_y, b_x)\<close> visit and whose global row and column are inside the
  input, and the value each of them must hold.
\<close>

definition stage_target :: "config \<Rightarrow> nat \<Rightarrow> nat \<Rightarrow> nat \<times> nat \<Rightarrow> bool" where
  "stage_target c b_y b_x p \<longleftrightarrow>
     fst p < i_end c \<and> snd p < j_end c \<and>
     b_y + fst p < input_height c \<and> b_x + snd p < input_width c"

definition staged_at ::
  "config \<Rightarrow> 'a list \<Rightarrow> nat \<Rightarrow> nat \<Rightarrow> nat \<times> nat \<Rightarrow> 'a kstate \<Rightarrow> bool" where
  "staged_at c input b_y b_x p s \<longleftrightarrow>
     sh_input s p = Some (input ! ((b_y + fst p) * input_width c + (b_x + snd p)))"

text \<open>
  The product that line 63 adds to the register \<open>p = (yi, xi)\<close> for the filter
  coefficient \<open>(i, j)\<close>, when \<^verbatim>\<open>sh_input\<close> is \<open>sh\<close>.
\<close>

definition acc_term ::
  "config \<Rightarrow> 'a::{zero,plus,times} list \<Rightarrow> (nat \<times> nat \<Rightarrow> 'a) \<Rightarrow> (nat \<times> nat \<Rightarrow> 'a option) \<Rightarrow>
   nat \<Rightarrow> nat \<Rightarrow> nat \<Rightarrow> nat \<Rightarrow> nat \<times> nat \<Rightarrow> 'a" where
  "acc_term c d_filter junk sh ty tx i j p =
     sh_content junk sh (ty + fst p * block_size_y c + i, tx + snd p * block_size_x c + j) *
     d_filter ! (i * filter_width c + j)"

text \<open>
  The output element \<open>p = (y, x)\<close> lies inside the image and holds the weighted sum
  for \<open>(y, x)\<close>.
\<close>

definition out_done ::
  "config \<Rightarrow> 'a::{zero,plus,times} list \<Rightarrow> 'a list \<Rightarrow> nat \<times> nat \<Rightarrow> ('a, 'm) gmem_scheme \<Rightarrow> bool" where
  "out_done c input filter_buf p s \<longleftrightarrow>
     fst p < image_height c \<and> snd p < image_width c \<and>
     output_buf s ! (fst p * image_width c + snd p) = conv_at c input filter_buf (fst p) (snd p)"


text \<open>
  The output elements inside the image that the thread \<open>(ty, tx)\<close> of the block with
  origin \<open>(b_y, b_x)\<close> stores, and those that the threads of a block store.
\<close>

definition thread_outputs :: "config \<Rightarrow> nat \<Rightarrow> nat \<Rightarrow> nat \<Rightarrow> nat \<Rightarrow> nat \<times> nat \<Rightarrow> bool" where
  "thread_outputs c b_y b_x ty tx p \<longleftrightarrow>
     (\<exists>yi<tile_size_y c. \<exists>xi<tile_size_x c.
        p = (b_y + ty + yi * block_size_y c, b_x + tx + xi * block_size_x c) \<and>
        fst p < image_height c \<and> snd p < image_width c)"

definition block_outputs :: "config \<Rightarrow> launch \<Rightarrow> nat \<Rightarrow> nat \<Rightarrow> nat \<times> nat \<Rightarrow> bool" where
  "block_outputs c L bidy bidx p \<longleftrightarrow>
     (\<exists>ty<block_dim_y L. \<exists>tx<block_dim_x L.
        thread_outputs c (bidy * block_size_y c * tile_size_y c)
          (bidx * block_size_x c * tile_size_x c) ty tx p)"


text \<open>
  Every read of \<^verbatim>\<open>sh_input\<close> recorded in \<open>s\<close> is either one of \<open>old\<close> or a read that
  line 63 makes for the thread \<open>(ty, tx)\<close>: for a register \<open>(yi, xi)\<close> of its tile and a
  filter coefficient \<open>(i, j)\<close>, at row \<open>ty + yi * block_size_y + i\<close> and column
  \<open>tx + xi * block_size_x + j\<close>.
\<close>

definition reads_logged ::
  "config \<Rightarrow> nat \<Rightarrow> nat \<Rightarrow> (nat \<times> nat \<times> nat \<times> nat) list \<Rightarrow> 'a kstate \<Rightarrow> bool" where
  "reads_logged c ty tx old s \<longleftrightarrow>
     (\<forall>e \<in> set (sh_reads s). e \<in> set old \<or>
        (\<exists>yi<tile_size_y c. \<exists>xi<tile_size_x c. \<exists>i<filter_height c. \<exists>j<filter_width c.
           e = (yi, xi, ty + yi * block_size_y c + i, tx + xi * block_size_x c + j)))"


section \<open>Rules for loops\<close>

lemma for_loop_stop: "\<not> i < e \<Longrightarrow> for_loop body i e st s = Some (Inr s)"
  by (subst for_loop.simps) simp

lemma for_loop_step:
  "i < e \<Longrightarrow> for_loop body i e st s = bind_res (body i s) (for_loop body (i + st) e st)"
  by (subst for_loop.simps) (simp add: bind_res_def split: option.splits sum.splits)

lemma bind_res_simps [simp]:
  "bind_res None k = None"
  "bind_res (Some (Inl f)) k = Some (Inl f)"
  "bind_res (Some (Inr s)) k = k s"
  by (simp_all add: bind_res_def)

text \<open>Total correctness of a loop, with an invariant that may mention the loop index.\<close>

lemma for_loop_total:
  assumes st: "0 < st"
    and J: "J i s"
    and step: "\<And>k s. k < e \<Longrightarrow> J k s \<Longrightarrow> \<exists>s'. body k s = Some (Inr s') \<and> J (k + st) s'"
  shows "\<exists>s' k. for_loop body i e st s = Some (Inr s') \<and> J k s' \<and> e \<le> k"
  using J
proof (induction "e - i" arbitrary: i s rule: less_induct)
  case less
  show ?case
  proof (cases "i < e")
    case False
    with less.prems show ?thesis by (auto simp: for_loop_stop)
  next
    case True
    from step [OF True less.prems] obtain s1 where
      b: "body i s = Some (Inr s1)" and j1: "J (i + st) s1" by blast
    have "e - (i + st) < e - i" using True st by arith
    from less.hyps [OF this j1] show ?thesis
      by (simp add: for_loop_step [OF True] b)
  qed
qed

text \<open>Partial correctness: what a loop can end with, faults included.\<close>

lemma for_loop_rule:
  assumes st: "0 < st"
    and J: "J i s"
    and step: "\<And>k s. k < e \<Longrightarrow> J k s \<Longrightarrow>
        (case body k s of None \<Rightarrow> True | Some (Inl f) \<Rightarrow> F f | Some (Inr s') \<Rightarrow> J (k + st) s')"
  shows "case for_loop body i e st s of None \<Rightarrow> True | Some (Inl f) \<Rightarrow> F f
         | Some (Inr s') \<Rightarrow> \<exists>k\<ge>e. J k s'"
  using J
proof (induction "e - i" arbitrary: i s rule: less_induct)
  case less
  show ?case
  proof (cases "i < e")
    case False
    with less.prems show ?thesis by (auto simp: for_loop_stop intro!: exI [of _ i])
  next
    case True
    have m: "e - (i + st) < e - i" using True st by arith
    show ?thesis
    proof (cases "body i s")
      case None
      then show ?thesis by (simp add: for_loop_step [OF True])
    next
      case (Some r)
      show ?thesis
      proof (cases r)
        case (Inl f)
        with step [OF True less.prems] Some show ?thesis
          by (simp add: for_loop_step [OF True])
      next
        case (Inr s1)
        with step [OF True less.prems] Some have "J (i + st) s1" by simp
        from less.hyps [OF m this] show ?thesis
          by (simp add: for_loop_step [OF True] Some Inr)
      qed
    qed
  qed
qed

lemma for_loop_returns:
  assumes st: "0 < st"
    and body: "\<And>k s. k < e \<Longrightarrow> body k s \<noteq> None"
  shows "for_loop body i e st s \<noteq> None"
proof (induction "e - i" arbitrary: i s rule: less_induct)
  case less
  show ?case
  proof (cases "i < e")
    case False
    then show ?thesis by (simp add: for_loop_stop)
  next
    case True
    have m: "e - (i + st) < e - i" using True st by arith
    from body [OF True, of s] obtain r where r: "body i s = Some r" by auto
    show ?thesis
      using less.hyps [OF m] by (cases r) (simp_all add: for_loop_step [OF True] r)
  qed
qed

lemma for_loop_cong_range:
  assumes st: "0 < st"
    and eq: "\<And>k s. i \<le> k \<Longrightarrow> k < e \<Longrightarrow> body1 k s = body2 k s"
  shows "for_loop body1 i e st s = for_loop body2 i e st s"
  using eq
proof (induction "e - i" arbitrary: i s rule: less_induct)
  case less
  show ?case
  proof (cases "i < e")
    case False
    then show ?thesis by (simp add: for_loop_stop)
  next
    case True
    have m: "e - (i + st) < e - i" using True st by arith
    have b: "body1 i s = body2 i s" using less.prems True by simp
    have "for_loop body1 (i + st) e st s' = for_loop body2 (i + st) e st s'" for s'
      by (rule less.hyps [OF m]) (simp add: less.prems)
    then show ?thesis
      by (simp add: for_loop_step [OF True] b bind_res_def split: option.splits sum.splits)
  qed
qed

lemma stride_next:
  fixes st :: nat
  assumes "st dvd (k - i)" "st dvd (k' - i)" "i \<le> k" "k \<le> k'" "k' < k + st"
  shows "k' = k"
proof -
  have "k' - k = (k' - i) - (k - i)" using assms by arith
  moreover have "st dvd ((k' - i) - (k - i))" by (intro dvd_diff_nat assms)
  ultimately have "st dvd (k' - k)" by simp
  moreover have "k' - k < st" using assms by arith
  ultimately have "k' - k = 0" by (meson dvd_imp_le not_less zero_less_iff_neq_zero)
  with assms show ?thesis by arith
qed

text \<open>
  A loop whose iterations each establish \<open>Q x\<close> for the \<open>x\<close> they cover (\<open>D k x\<close>) and
  keep the \<open>Q x\<close> that hold establishes \<open>Q x\<close> for all \<open>x\<close> some iteration covers.
\<close>

lemma for_loop_cover:
  assumes st: "0 < st"
    and I: "I s"
    and step: "\<And>k s. i \<le> k \<Longrightarrow> k < e \<Longrightarrow> st dvd (k - i) \<Longrightarrow> I s \<Longrightarrow>
       \<exists>s'. body k s = Some (Inr s') \<and> I s' \<and> (\<forall>x. Q x s \<or> D k x \<longrightarrow> Q x s')"
  shows "\<exists>s'. for_loop body i e st s = Some (Inr s') \<and> I s' \<and>
     (\<forall>x. Q x s \<or> (\<exists>k. i \<le> k \<and> k < e \<and> st dvd (k - i) \<and> D k x) \<longrightarrow> Q x s')"
proof -
  define J where "J k t \<longleftrightarrow> i \<le> k \<and> st dvd (k - i) \<and> I t \<and>
     (\<forall>x. Q x s \<or> (\<exists>k'. i \<le> k' \<and> k' < k \<and> k' < e \<and> st dvd (k' - i) \<and> D k' x) \<longrightarrow> Q x t)"
    for k t
  have J0: "J i s" using I by (auto simp: J_def)
  have Jstep: "\<exists>t'. body k t = Some (Inr t') \<and> J (k + st) t'" if k: "k < e" and j: "J k t" for k t
  proof -
    from j have ik: "i \<le> k" and d: "st dvd (k - i)" and It: "I t"
      and q: "\<And>x. Q x s \<or> (\<exists>k'. i \<le> k' \<and> k' < k \<and> k' < e \<and> st dvd (k' - i) \<and> D k' x) \<Longrightarrow> Q x t"
      by (auto simp: J_def)
    from step [OF ik k d It] obtain t' where
      b: "body k t = Some (Inr t')" and It': "I t'" and
      q': "\<And>x. Q x t \<or> D k x \<Longrightarrow> Q x t'" by blast
    have d': "st dvd (k + st - i)" using d ik
      by (metis Nat.add_diff_assoc2 dvd_add_triv_right_iff)
    have "Q x t'" if h: "Q x s \<or> (\<exists>k'. i \<le> k' \<and> k' < k + st \<and> k' < e \<and> st dvd (k' - i) \<and> D k' x)" for x
    proof -
      from h consider "Q x s"
        | k' where "i \<le> k'" "k' < k + st" "k' < e" "st dvd (k' - i)" "D k' x" by blast
      then show ?thesis
      proof cases
        case 1
        then show ?thesis using q q' by blast
      next
        case 2
        show ?thesis
        proof (cases "k' < k")
          case True
          with 2 show ?thesis using q q' by blast
        next
          case False
          then have "k' = k" using stride_next [OF d 2(4) ik _ 2(2)] by simp
          with 2 show ?thesis using q' by blast
        qed
      qed
    qed
    with b It' d' ik show ?thesis by (auto simp: J_def)
  qed
  from for_loop_total [of st J i s e body, OF st J0 Jstep]
  obtain s' k where r: "for_loop body i e st s = Some (Inr s')" and j: "J k s'" and ek: "e \<le> k"
    by blast
  from j ek have "I s'" and
    "\<forall>x. Q x s \<or> (\<exists>k. i \<le> k \<and> k < e \<and> st dvd (k - i) \<and> D k x) \<longrightarrow> Q x s'"
    unfolding J_def by (auto, metis less_le_trans)
  with r show ?thesis by blast
qed


section \<open>Non-negative origins and coordinates\<close>

text \<open>
  As long as nothing wraps around, the origins and the coordinates are natural numbers
  and the accesses to the global buffers are those at natural-number indices.
\<close>

lemma unsigned_to_int_small: "n < 2 ^ 31 \<Longrightarrow> unsigned_to_int n = int n"
  by (simp add: unsigned_to_int_def Let_def)

lemma load_at_int: "load_at f buf (int k) = load f buf k"
  by (simp add: load_at_def load_def)

lemma int_flat_index: "int y * int w + int x = int (y * w + x)"
  by simp

lemma write_output_int:
  "write_output c (int y) (int x) v s =
     (if y * image_width c + x < length (output_buf s)
      then Some (Inr (s\<lparr>output_buf := (output_buf s)[y * image_width c + x := v],
                        out_writes := out_writes s @ [(int y, int x)]\<rparr>))
      else Some (Inl OutputRange))"
  unfolding write_output_def Let_def int_flat_index
  by (simp del: of_nat_add of_nat_mult)

lemma stage_elem_int:
  "stage_elem chk c input (int b_y) (int b_x) i j s =
     (if chk then
        (if b_y + i < input_height c \<and> b_x + j < input_width c
         then bind_res (load InputRange input ((b_y + i) * input_width c + (b_x + j)))
                (\<lambda>v. sh_store c i j v s)
         else Some (Inr s))
      else bind_res (load InputRange input ((b_y + i) * input_width c + (b_x + j)))
             (\<lambda>v. sh_store c i j v s))"
proof -
  have e: "(int b_y + int i) * int (input_width c) + (int b_x + int j) =
      int ((b_y + i) * input_width c + (b_x + j))" by simp
  have g: "(int b_y + int i < int (input_height c)) = (b_y + i < input_height c)"
    "(int b_x + int j < int (input_width c)) = (b_x + j < input_width c)" by arith+
  show ?thesis
    unfolding stage_elem_def Let_def e g load_at_int by (rule refl)
qed

lemma store_elem_int:
  "store_elem chk c (int b_y) (int b_x) ty tx yi xi s =
     (if chk then
        (if b_y + ty + yi * block_size_y c < image_height c \<and>
            b_x + tx + xi * block_size_x c < image_width c
         then write_output c (int (b_y + ty + yi * block_size_y c))
                (int (b_x + tx + xi * block_size_x c)) (sum_reg s (yi, xi)) s
         else Some (Inr s))
      else write_output c (int (b_y + ty + yi * block_size_y c))
             (int (b_x + tx + xi * block_size_x c)) (sum_reg s (yi, xi)) s)"
proof -
  have e: "int b_y + int ty + int (yi * block_size_y c) = int (b_y + ty + yi * block_size_y c)"
    "int b_x + int tx + int (xi * block_size_x c) = int (b_x + tx + xi * block_size_x c)"
    by simp_all
  show ?thesis
    unfolding store_elem_def Let_def e of_nat_less_iff by (rule refl)
qed

lemma naive_term_int:
  "naive_term c input filter_buf (int y) (int x) j i a =
     bind_res (load InputRange input ((y + j) * input_width c + (x + i))) (\<lambda>v.
     bind_res (load FilterRange filter_buf (j * filter_width c + i)) (\<lambda>w.
     Some (Inr (a + v * w))))"
proof -
  have e: "(int y + int j) * int (input_width c) + (int x + int i) =
      int ((y + j) * input_width c + (x + i))" by simp
  show ?thesis unfolding naive_term_def e load_at_int ..
qed



section \<open>Evaluating the model\<close>

lemmas geometry_defs =
  i_end_def j_end_def sh_rows_def sh_cols_def input_height_def input_width_def
  border_height_def border_width_def boundary_mode_def config_ok_def launch_ok_def
  naive_launch_ok_def

lemmas kernel_defs =
  convolution_kernel_def tiled_kernel_def run_block_def stage_block_def compute_block_def
  compute_thread_def store_sums_def store_elem_def accumulate_def acc_elem_def zero_sums_def
  stage_thread_def stage_elem_def sh_load_def sh_content_def sh_store_def write_output_def
  load_def load_at_def unsigned_to_int_def
  convolution_naive_def naive_thread_def naive_sum_def naive_term_def
  launch_state_def launch_mem_def

lemmas instance_defs = edge_cfg_def edge_launch_def even_cfg_def even_launch_def


section \<open>Termination\<close>

lemma config_ok_steps:
  "config_ok c \<Longrightarrow> 0 < block_size_y c \<and> 0 < block_size_x c \<and> 0 < tile_size_y c \<and> 0 < tile_size_x c"
  by (simp add: config_ok_def)

lemma bind_res_returns:
  "m \<noteq> None \<Longrightarrow> (\<And>s. k s \<noteq> None) \<Longrightarrow> bind_res m k \<noteq> None"
  by (auto simp: bind_res_def split: option.splits sum.splits)

lemma load_returns: "load f buf k \<noteq> None"
  by (simp add: load_def)

lemma load_at_returns: "load_at f buf k \<noteq> None"
  by (simp add: load_at_def)

lemma write_output_returns: "write_output c y x v s \<noteq> None"
  by (simp add: write_output_def Let_def)

lemma naive_term_returns: "naive_term c input fb y x j i a \<noteq> None"
  unfolding naive_term_def
  by (intro bind_res_returns load_at_returns load_returns) simp

lemma naive_sum_returns: "naive_sum c input fb y x \<noteq> None"
  unfolding naive_sum_def
  by (intro for_loop_returns naive_term_returns) simp_all

lemma naive_thread_returns: "naive_thread c input fb y x s \<noteq> None"
proof -
  have "bind_res (naive_sum c input fb y x) (\<lambda>sum_n. write_output c y x sum_n s) \<noteq> None"
    by (intro bind_res_returns naive_sum_returns write_output_returns)
  then show ?thesis by (simp add: naive_thread_def)
qed

lemma convolution_naive_returns: "convolution_naive c L input fb s \<noteq> None"
  unfolding convolution_naive_def
  by (intro for_loop_returns naive_thread_returns) simp_all

lemma sh_store_returns: "sh_store c i j v s \<noteq> None"
  by (simp add: sh_store_def)

lemma stage_elem_returns: "stage_elem chk c input b_y b_x i j s \<noteq> None"
proof -
  have "bind_res (load_at InputRange input k) (\<lambda>v. sh_store c i j v s) \<noteq> None" for k
    by (intro bind_res_returns load_at_returns sh_store_returns)
  then show ?thesis by (simp add: stage_elem_def Let_def)
qed

lemma stage_thread_returns:
  "config_ok c \<Longrightarrow> stage_thread chk c input b_y b_x ty tx s \<noteq> None"
  unfolding stage_thread_def
  by (intro for_loop_returns stage_elem_returns) (simp_all add: config_ok_def)

lemma zero_sums_returns: "zero_sums c s \<noteq> None"
  unfolding zero_sums_def
  by (intro for_loop_returns) simp_all

lemma acc_elem_returns: "acc_elem c d_filter junk ty tx i j yi xi s \<noteq> None"
  by (simp add: acc_elem_def sh_load_def load_def)

lemma accumulate_returns: "accumulate c d_filter junk ty tx s \<noteq> None"
  unfolding accumulate_def
  by (intro for_loop_returns acc_elem_returns) simp_all

lemma store_elem_returns: "store_elem chk c b_y b_x ty tx yi xi s \<noteq> None"
  by (simp add: store_elem_def write_output_def Let_def)

lemma store_sums_returns: "store_sums chk c b_y b_x ty tx s \<noteq> None"
  unfolding store_sums_def
  by (intro for_loop_returns store_elem_returns) simp_all

lemma compute_thread_returns: "compute_thread chk c d_filter junk b_y b_x ty tx s \<noteq> None"
  unfolding compute_thread_def
  by (intro bind_res_returns zero_sums_returns accumulate_returns store_sums_returns)

lemma stage_block_returns:
  "config_ok c \<Longrightarrow> stage_block chk c L input b_y b_x s \<noteq> None"
  unfolding stage_block_def
  by (intro for_loop_returns stage_thread_returns) simp_all

lemma compute_block_returns: "compute_block chk c L d_filter junk b_y b_x s \<noteq> None"
  unfolding compute_block_def
  by (intro for_loop_returns compute_thread_returns) simp_all

lemma run_block_returns:
  "config_ok c \<Longrightarrow> run_block chk c L garbage input d_filter bidy bidx s \<noteq> None"
  unfolding run_block_def Let_def
  by (intro bind_res_returns stage_block_returns compute_block_returns)

lemma tiled_kernel_returns:
  "config_ok c \<Longrightarrow> tiled_kernel chk c L garbage input d_filter filter_arg s \<noteq> None"
  unfolding tiled_kernel_def
  by (intro for_loop_returns run_block_returns) simp_all

text \<open>
  C9. Every invocation of either kernel returns, for every launch, every buffer and
  every starting state: all loop bounds are functions of the configuration and of the
  launch, and every stride is positive in a configuration that compiles. The kernels are
  functions of their arguments and keep no state between invocations.
\<close>

theorem kernels_terminate:
  assumes "config_ok c"
  shows "(\<exists>r. convolution_kernel c L garbage input d_filter filter_arg s = Some r) \<and>
         (\<exists>r. convolution_naive c L' input' filter_buf s' = Some r)"
  using tiled_kernel_returns [OF assms, of "boundary_mode c" L garbage input d_filter filter_arg s]
    convolution_naive_returns [of c L' input' filter_buf s']
  by (auto simp: convolution_kernel_def)

theorem kernels_terminate_witness:
  "config_ok edge_cfg \<and>
   (\<exists>r. convolution_kernel edge_cfg edge_launch (\<lambda>_ _. 7) [10, 20, 30 :: int] [2] [5]
           (launch_state [0, 0, 0] (\<lambda>_. 0)) = Some r) \<and>
   (\<exists>r. convolution_naive edge_cfg edge_launch [10, 20, 30 :: int] [5]
           (launch_mem [0, 0, 0]) = Some r)"
  using kernels_terminate [of edge_cfg edge_launch "\<lambda>_ _. 7" "[10, 20, 30 :: int]" "[2]" "[5]"
      "launch_state [0, 0, 0] (\<lambda>_. 0)" edge_launch "[10, 20, 30 :: int]" "[5]"
      "launch_mem [0, 0, 0]"]
  by (simp add: config_ok_def edge_cfg_def)


section \<open>What each phase of the tiled kernel leaves unchanged\<close>

lemma for_loop_inv:
  assumes st: "0 < st"
    and I: "I s"
    and step: "\<And>k s s'. k < e \<Longrightarrow> I s \<Longrightarrow> body k s = Some (Inr s') \<Longrightarrow> I s'"
    and res: "for_loop body i e st s = Some (Inr s')"
  shows "I s'"
proof -
  have "case for_loop body i e st s of None \<Rightarrow> True | Some (Inl f) \<Rightarrow> True
        | Some (Inr s') \<Rightarrow> \<exists>k\<ge>e. I s'"
    by (rule for_loop_rule [where J = "\<lambda>k. I" and F = "\<lambda>f. True", OF st I])
       (auto split: option.splits sum.splits dest: step)
  with res show ?thesis by simp
qed

lemma for_loop_rel:
  assumes st: "0 < st"
    and refl: "\<And>t. R t t"
    and trans: "\<And>t t' t''. R t t' \<Longrightarrow> R t' t'' \<Longrightarrow> R t t''"
    and step: "\<And>k t t'. k < e \<Longrightarrow> body k t = Some (Inr t') \<Longrightarrow> R t t'"
    and res: "for_loop body i e st s = Some (Inr s')"
  shows "R s s'"
proof (rule for_loop_inv [where I = "R s", OF st refl _ res])
  fix k t t'
  assume "k < e" "R s t" "body k t = Some (Inr t')"
  then show "R s t'" using step trans by blast
qed

lemma stage_frame_refl: "stage_frame s s"
  by (simp add: stage_frame_def)

lemma stage_frame_trans: "stage_frame s t \<Longrightarrow> stage_frame t u \<Longrightarrow> stage_frame s u"
  by (simp add: stage_frame_def)

lemma compute_frame_refl: "compute_frame s s"
  by (simp add: compute_frame_def)

lemma compute_frame_trans: "compute_frame s t \<Longrightarrow> compute_frame t u \<Longrightarrow> compute_frame s u"
  by (simp add: compute_frame_def)

lemma stage_elem_frame:
  assumes "stage_elem chk c input b_y b_x i j s = Some (Inr s')"
  shows "stage_frame s s'"
  using assms
  by (auto simp: stage_frame_def stage_elem_def load_at_def sh_store_def Let_def
      split: if_splits)

lemma stage_thread_frame:
  assumes ok: "config_ok c"
    and res: "stage_thread chk c input b_y b_x ty tx s = Some (Inr s')"
  shows "stage_frame s s'"
proof -
  have sx: "0 < block_size_x c" and sy: "0 < block_size_y c"
    using ok by (simp_all add: config_ok_def)
  have row: "stage_frame t t'"
    if "for_loop (\<lambda>j. stage_elem chk c input b_y b_x i j) tx (j_end c) (block_size_x c) t
          = Some (Inr t')" for i t t'
    by (rule for_loop_rel [where R = stage_frame, OF sx _ _ _ that])
       (blast intro: stage_frame_refl stage_frame_trans stage_elem_frame)+
  show ?thesis
    by (rule for_loop_rel [where R = stage_frame, OF sy _ _ _ res [unfolded stage_thread_def]])
       (blast intro: stage_frame_refl stage_frame_trans row)+
qed

lemma stage_block_frame:
  assumes ok: "config_ok c"
    and res: "stage_block chk c L input b_y b_x s = Some (Inr s')"
  shows "stage_frame s s'"
proof -
  have row: "stage_frame t t'"
    if "for_loop (\<lambda>tx. stage_thread chk c input b_y b_x ty tx) 0 (block_dim_x L) 1 t
          = Some (Inr t')" for ty t t'
    by (rule for_loop_rel [where R = stage_frame, OF zero_less_one _ _ _ that])
       (blast intro: stage_frame_refl stage_frame_trans stage_thread_frame [OF ok])+
  show ?thesis
    by (rule for_loop_rel [where R = stage_frame, OF zero_less_one _ _ _ res [unfolded stage_block_def]])
       (blast intro: stage_frame_refl stage_frame_trans row)+
qed






section \<open>The input indices of the naive kernel\<close>

lemma halo_row: "y < image_height c \<Longrightarrow> j < filter_height c \<Longrightarrow> y + j < input_height c"
  by (simp add: input_height_def border_height_def)

lemma halo_col: "x < image_width c \<Longrightarrow> i < filter_width c \<Longrightarrow> x + i < input_width c"
  by (simp add: input_width_def border_width_def)

lemma flat_index_less:
  fixes r q h w :: nat
  assumes "r < h" "q < w"
  shows "r * w + q < h * w"
proof -
  have "r * w + q < Suc r * w" using assms by simp
  also have "\<dots> \<le> h * w" using assms by (intro mult_le_mono1) simp
  finally show ?thesis .
qed

lemma naive_index_less:
  assumes "y < image_height c" "x < image_width c" "j < filter_height c" "i < filter_width c"
  shows "(y + j) * input_width c + (x + i) < input_height c * input_width c"
  using assms by (intro flat_index_less halo_row halo_col)

lemma filter_index_less:
  assumes "j < filter_height c" "i < filter_width c"
  shows "j * filter_width c + i < filter_height c * filter_width c"
  using assms by (intro flat_index_less)


section \<open>Counted loops as folds\<close>

lemma for_loop_fold:
  assumes I: "I s"
    and step: "\<And>k t. k < n \<Longrightarrow> I t \<Longrightarrow> body k t = Some (Inr (f k t)) \<and> I (f k t)"
  shows "for_loop body 0 n 1 s = Some (Inr (fold f [0..<n] s)) \<and> I (fold f [0..<n] s)"
proof -
  define J where "J k t \<longleftrightarrow> k \<le> n \<and> t = fold f [0..<k] s \<and> I t" for k t
  have J0: "J 0 s" using I by (simp add: J_def)
  have Jstep: "\<exists>t'. body k t = Some (Inr t') \<and> J (k + 1) t'" if "k < n" "J k t" for k t
    using step [of k t] that by (auto simp: J_def)
  from for_loop_total [of 1 J 0 s n body, OF zero_less_one J0 Jstep]
  obtain s' k where r: "for_loop body 0 n 1 s = Some (Inr s')" and j: "J k s'" and nk: "n \<le> k"
    by blast
  from j nk have "k = n" by (simp add: J_def)
  with j have "s' = fold f [0..<n] s" and "I s'" by (auto simp: J_def)
  with r show ?thesis by simp
qed

lemma for_loop_fold_pure:
  assumes "\<And>k t. k < n \<Longrightarrow> body k t = Some (Inr (f k t))"
  shows "for_loop body 0 n 1 s = Some (Inr (fold f [0..<n] s))"
  using for_loop_fold [where I = "\<lambda>_. True" and body = body and f = f and n = n and s = s] assms
  by simp

section \<open>The naive kernel\<close>

lemma naive_term_eq:
  assumes "length input = input_height c * input_width c"
    and "length filter_buf = filter_height c * filter_width c"
    and "y < image_height c" "x < image_width c" "j < filter_height c" "i < filter_width c"
  shows "naive_term c input filter_buf (int y) (int x) j i a =
     Some (Inr (a + input ! ((y + j) * input_width c + (x + i)) *
                    filter_buf ! (j * filter_width c + i)))"
  using naive_index_less [OF assms(3-6)] filter_index_less [OF assms(5,6)] assms(1,2)
  by (simp add: naive_term_int load_def)

lemma naive_sum_eq:
  assumes "length input = input_height c * input_width c"
    and "length filter_buf = filter_height c * filter_width c"
    and "y < image_height c" "x < image_width c"
  shows "naive_sum c input filter_buf (int y) (int x) =
     Some (Inr (conv_at c input filter_buf y x))"
  unfolding naive_sum_def conv_at_def
  by (intro for_loop_fold_pure naive_term_eq assms)

lemma fold_add_sum:
  fixes f :: "nat \<Rightarrow> 'a::comm_monoid_add"
  shows "fold (\<lambda>i a. a + f i) [0..<n] = (\<lambda>a. a + (\<Sum>i<n. f i))"
  by (induction n) (simp_all add: add.assoc fun_eq_iff)

lemma conv_at_weighted_sum:
  fixes input :: "'a::{comm_monoid_add,times} list"
  shows "conv_at c input filter_buf y x = weighted_sum c input filter_buf y x"
  by (simp add: conv_at_def weighted_sum_def fold_add_sum)

text \<open>
  C2. A thread of the naive kernel with global coordinates \<open>(y, x)\<close> is active if and
  only if \<open>y < image_height\<close> and \<open>x < image_width\<close>. An active thread replaces
  \<^verbatim>\<open>output[y * image_width + x]\<close> by the sum over \<open>j < filter_height\<close> and
  \<open>i < filter_width\<close> of \<^verbatim>\<open>input[(y+j)*input_width + (x+i)] * filter[j*filter_width + i]\<close>
  with one store; an inactive thread leaves the state as it is, with no store.
\<close>

theorem naive_thread_contract:
  fixes input :: "'a::{comm_monoid_add,times} list"
  assumes "length input = input_height c * input_width c"
    and "length filter_buf = filter_height c * filter_width c"
    and "length (output_buf s) = image_height c * image_width c"
  shows "naive_thread c input filter_buf (int y) (int x) s =
     Some (Inr (if y < image_height c \<and> x < image_width c
                then s\<lparr>output_buf := (output_buf s)[y * image_width c + x :=
                           (\<Sum>j<filter_height c. \<Sum>i<filter_width c.
                              input ! ((y + j) * input_width c + (x + i)) *
                              filter_buf ! (j * filter_width c + i))],
                       out_writes := out_writes s @ [(int y, int x)]\<rparr>
                else s))"
proof (cases "y < image_height c \<and> x < image_width c")
  case False
  then show ?thesis by (auto simp: naive_thread_def)
next
  case True
  then have "y * image_width c + x < length (output_buf s)"
    using assms(3) by (simp add: flat_index_less)
  with True naive_sum_eq [OF assms(1,2), of y x] show ?thesis
    by (simp add: naive_thread_def write_output_int conv_at_weighted_sum weighted_sum_def)
qed

theorem naive_thread_contract_witness:
  "length [10, 20, 30 :: int] = input_height edge_cfg * input_width edge_cfg \<and>
   length [5 :: int] = filter_height edge_cfg * filter_width edge_cfg \<and>
   length (output_buf (launch_mem [0, 0, 0 :: int])) = image_height edge_cfg * image_width edge_cfg \<and>
   naive_thread edge_cfg [10, 20, 30 :: int] [5] 2 0 (launch_mem [0, 0, 0]) =
     Some (Inr \<lparr>output_buf = [0, 0, 150], out_writes = [(2, 0)]\<rparr>) \<and>
   naive_thread edge_cfg [10, 20, 30 :: int] [5] 3 0 (launch_mem [0, 0, 0]) =
     Some (Inr (launch_mem [0, 0, 0]))"
  using naive_thread_contract [of "[10, 20, 30 :: int]" edge_cfg "[5]" "launch_mem [0, 0, 0]" 2 0]
    naive_thread_contract [of "[10, 20, 30 :: int]" edge_cfg "[5]" "launch_mem [0, 0, 0]" 3 0]
  by (simp add: geometry_defs edge_cfg_def launch_mem_def)

section \<open>Input reads of the naive kernel\<close>

lemma naive_term_no_input_fault:
  assumes "length input = input_height c * input_width c"
    and "y < image_height c" "x < image_width c" "j < filter_height c" "i < filter_width c"
  shows "naive_term c input filter_buf (int y) (int x) j i a \<noteq> Some (Inl InputRange)"
  using naive_index_less [OF assms(2-5)] assms(1)
  by (simp add: naive_term_int load_def)

lemma for_loop_no_fault:
  assumes st: "0 < st"
    and step: "\<And>k s. k < e \<Longrightarrow> body k s \<noteq> Some (Inl f)"
  shows "for_loop body i e st s \<noteq> Some (Inl f)"
proof -
  have "case for_loop body i e st s of None \<Rightarrow> True | Some (Inl g) \<Rightarrow> g \<noteq> f
        | Some (Inr s') \<Rightarrow> \<exists>k\<ge>e. True"
    by (rule for_loop_rule [where J = "\<lambda>_ _. True", OF st TrueI])
       (use step in \<open>auto split: option.splits sum.splits\<close>)
  then show ?thesis by (auto split: option.splits sum.splits)
qed

lemma naive_sum_no_input_fault:
  assumes "length input = input_height c * input_width c"
    and "y < image_height c" "x < image_width c"
  shows "naive_sum c input filter_buf (int y) (int x) \<noteq> Some (Inl InputRange)"
  unfolding naive_sum_def
  by (intro for_loop_no_fault naive_term_no_input_fault assms) simp_all

lemma naive_thread_no_input_fault:
  assumes "length input = input_height c * input_width c"
  shows "naive_thread c input filter_buf (int y) (int x) s \<noteq> Some (Inl InputRange)"
proof (cases "y < image_height c \<and> x < image_width c")
  case False
  then show ?thesis by (auto simp: naive_thread_def)
next
  case True
  with naive_sum_no_input_fault [OF assms, of y x filter_buf] show ?thesis
    by (auto simp: naive_thread_def bind_res_def write_output_int
        split: option.splits sum.splits)
qed

lemma thread_coordinate_fits:
  fixes bid t g b :: nat
  assumes "bid < g" "t < b" "g * b \<le> 2 ^ 31"
  shows "unsigned_to_int (bid * b + t) = int (bid * b + t)"
proof -
  have "bid * b + t < Suc bid * b" using assms(2) by simp
  also have "\<dots> \<le> g * b" using assms(1) by (intro mult_le_mono1) simp
  finally have "bid * b + t < 2 ^ 31" using assms(3) by (rule less_le_trans)
  then show ?thesis by (rule unsigned_to_int_small)
qed

lemma convolution_naive_no_input_fault:
  assumes len: "length input = input_height c * input_width c"
    and fits: "grid_dim_x L * block_dim_x L \<le> 2 ^ 31" "grid_dim_y L * block_dim_y L \<le> 2 ^ 31"
  shows "convolution_naive c L input filter_buf s \<noteq> Some (Inl InputRange)"
proof -
  have th: "naive_thread c input filter_buf
        (unsigned_to_int (bidy * block_dim_y L + tidy))
        (unsigned_to_int (bidx * block_dim_x L + tidx)) t \<noteq> Some (Inl InputRange)"
    if "bidy < grid_dim_y L" "bidx < grid_dim_x L" "tidy < block_dim_y L" "tidx < block_dim_x L"
    for bidy bidx tidy tidx t
    unfolding thread_coordinate_fits [OF that(1,3) fits(2)]
      thread_coordinate_fits [OF that(2,4) fits(1)]
    by (rule naive_thread_no_input_fault [OF len])
  show ?thesis
    unfolding convolution_naive_def
    by (intro for_loop_no_fault th) simp_all
qed

text \<open>
  C5. With an input buffer of \<open>input_height * input_width\<close> elements, where
  \<open>input_height = image_height + 2 * (filter_height div 2)\<close> and likewise for the width,
  every index \<^verbatim>\<open>(y+j)*input_width + (x+i)\<close> that a thread of the naive kernel inside the
  image reads lies inside the buffer, the first and the last rows and columns included;
  no launch of the naive kernel whose thread coordinates do not wrap around reads outside
  the input buffer.
\<close>

theorem naive_reads_in_bounds:
  assumes "length input = input_height c * input_width c"
    and "grid_dim_x L * block_dim_x L \<le> 2 ^ 31" and "grid_dim_y L * block_dim_y L \<le> 2 ^ 31"
  shows "(\<forall>y<image_height c. \<forall>x<image_width c. \<forall>j<filter_height c. \<forall>i<filter_width c.
            (y + j) * input_width c + (x + i) < length input) \<and>
         input_height c = image_height c + 2 * (filter_height c div 2) \<and>
         input_width c = image_width c + 2 * (filter_width c div 2) \<and>
         convolution_naive c L input filter_buf s \<noteq> Some (Inl InputRange)"
  using naive_index_less [of _ c] convolution_naive_no_input_fault [OF assms] assms(1)
  by (simp add: input_height_def input_width_def border_height_def border_width_def)

theorem naive_reads_in_bounds_witness:
  "length [1 .. 16] = input_height even_cfg * input_width even_cfg \<and>
   (1 + 2) * input_width even_cfg + (1 + 2) < length [1 .. 16] \<and>
   convolution_naive even_cfg \<lparr>grid_dim_x = 1, grid_dim_y = 1, block_dim_x = 2, block_dim_y = 2\<rparr>
     [1 .. 16] [1, 0, 0, 0, 1, 0, 0, 0, 1] (launch_mem [0, 0, 0, 0]) \<noteq> Some (Inl InputRange)"
  using naive_reads_in_bounds [of "[1 .. 16]" even_cfg
      "\<lparr>grid_dim_x = 1, grid_dim_y = 1, block_dim_x = 2, block_dim_y = 2\<rparr>"
      "[1, 0, 0, 0, 1, 0, 0, 0, 1]" "launch_mem [0, 0, 0, 0]"]
  by (simp add: geometry_defs even_cfg_def)

section \<open>The filter argument of the tiled kernel\<close>

text \<open>
  C10. The result of the tiled kernel does not depend on its third parameter: the
  coefficients it uses are those of \<^verbatim>\<open>d_filter\<close>. The naive kernel uses its third
  parameter. On the \<open>3 \<times> 1\<close> instance, with \<^verbatim>\<open>d_filter\<close> holding \<open>2\<close> and the filter
  argument holding \<open>5\<close>, the tiled kernel doubles the input while the naive kernel
  multiplies it by five: the two kernels agree only if \<^verbatim>\<open>d_filter\<close> holds the
  coefficients the naive kernel is given.
\<close>

theorem tiled_ignores_filter_argument:
  "convolution_kernel c L garbage input d_filter filter1 s =
     convolution_kernel c L garbage input d_filter filter2 s \<and>
   map_option (map_sum id output_buf)
     (convolution_kernel edge_cfg edge_launch (\<lambda>_ _. 0) [10, 20, 30 :: int] [2] [5]
        (launch_state [0, 0, 0] (\<lambda>_. 0))) = Some (Inr [20, 40, 60]) \<and>
   map_option (map_sum id output_buf)
     (convolution_naive edge_cfg edge_launch [10, 20, 30 :: int] [5] (launch_mem [0, 0, 0]))
     = Some (Inr [50, 100, 150])"
proof (intro conjI)
  show "convolution_kernel c L garbage input d_filter filter1 s =
     convolution_kernel c L garbage input d_filter filter2 s"
    by (simp add: convolution_kernel_def tiled_kernel_def)
  show "map_option (map_sum id output_buf)
     (convolution_kernel edge_cfg edge_launch (\<lambda>_ _. 0) [10, 20, 30 :: int] [2] [5]
        (launch_state [0, 0, 0] (\<lambda>_. 0))) = Some (Inr [20, 40, 60])"
    by (simp add: kernel_defs geometry_defs instance_defs for_loop.simps)
  show "map_option (map_sum id output_buf)
     (convolution_naive edge_cfg edge_launch [10, 20, 30 :: int] [5] (launch_mem [0, 0, 0]))
     = Some (Inr [50, 100, 150])"
    by (simp add: kernel_defs geometry_defs instance_defs for_loop.simps)
qed


section \<open>Stores of the boundary-checked variant\<close>

lemma res_sat_simps [simp]:
  "res_sat F P None"
  "res_sat F P (Some (Inl f)) = F f"
  "res_sat F P (Some (Inr s)) = P s"
  by (simp_all add: res_sat_def)























section \<open>The two variants on blocks inside the image\<close>

lemma stage_elem_variants:
  assumes "b_y + i < input_height c" "b_x + j < input_width c"
  shows "stage_elem True c input (int b_y) (int b_x) i j s = stage_elem False c input (int b_y) (int b_x) i j s"
  using assms by (simp add: stage_elem_int)

lemma block_inside_rows:
  assumes "block_inside c b_y b_x" "i < i_end c"
  shows "b_y + i < input_height c"
  using assms by (simp add: block_inside_def i_end_def input_height_def)

lemma block_inside_cols:
  assumes "block_inside c b_y b_x" "j < j_end c"
  shows "b_x + j < input_width c"
  using assms by (simp add: block_inside_def j_end_def input_width_def)

lemma stage_thread_variants:
  assumes ok: "config_ok c" and ins: "block_inside c b_y b_x"
  shows "stage_thread True c input (int b_y) (int b_x) ty tx s = stage_thread False c input (int b_y) (int b_x) ty tx s"
proof -
  have sx: "0 < block_size_x c" and sy: "0 < block_size_y c"
    using ok by (simp_all add: config_ok_def)
  show ?thesis
    unfolding stage_thread_def
    by (intro for_loop_cong_range sx sy stage_elem_variants
          block_inside_rows [OF ins] block_inside_cols [OF ins])
qed

lemma stage_block_variants:
  assumes ok: "config_ok c" and ins: "block_inside c b_y b_x"
  shows "stage_block True c L input (int b_y) (int b_x) s = stage_block False c L input (int b_y) (int b_x) s"
  unfolding stage_block_def
  by (intro for_loop_cong_range stage_thread_variants ok ins) simp_all

lemma tile_offset_less:
  fixes t b n k :: nat
  assumes "t < b" "k < n"
  shows "t + k * b < b * n"
proof -
  have "t + k * b < Suc k * b" using assms by simp
  also have "\<dots> \<le> n * b" using assms by (intro mult_le_mono1) simp
  finally show ?thesis by (simp add: mult.commute)
qed

lemma store_elem_variants:
  assumes ins: "block_inside c b_y b_x"
    and "ty < block_size_y c" "tx < block_size_x c" "yi < tile_size_y c" "xi < tile_size_x c"
  shows "store_elem True c (int b_y) (int b_x) ty tx yi xi s = store_elem False c (int b_y) (int b_x) ty tx yi xi s"
proof -
  have "ty + yi * block_size_y c < block_size_y c * tile_size_y c"
    and "tx + xi * block_size_x c < block_size_x c * tile_size_x c"
    using assms by (simp_all add: tile_offset_less)
  with ins have "b_y + ty + yi * block_size_y c < image_height c"
    and "b_x + tx + xi * block_size_x c < image_width c"
    by (simp_all add: block_inside_def)
  then show ?thesis by (simp add: store_elem_int)
qed

lemma store_sums_variants:
  assumes ins: "block_inside c b_y b_x"
    and "ty < block_size_y c" "tx < block_size_x c"
  shows "store_sums True c (int b_y) (int b_x) ty tx s = store_sums False c (int b_y) (int b_x) ty tx s"
  unfolding store_sums_def
  by (intro for_loop_cong_range store_elem_variants assms) simp_all

lemma compute_thread_variants:
  assumes ins: "block_inside c b_y b_x"
    and "ty < block_size_y c" "tx < block_size_x c"
  shows "compute_thread True c d_filter junk (int b_y) (int b_x) ty tx s =
         compute_thread False c d_filter junk (int b_y) (int b_x) ty tx s"
  by (simp add: compute_thread_def store_sums_variants [OF assms])

lemma compute_block_variants:
  assumes ins: "block_inside c b_y b_x"
    and "block_dim_y L = block_size_y c" "block_dim_x L = block_size_x c"
  shows "compute_block True c L d_filter junk (int b_y) (int b_x) s =
         compute_block False c L d_filter junk (int b_y) (int b_x) s"
  unfolding compute_block_def
  by (intro for_loop_cong_range compute_thread_variants ins) (simp_all add: assms)

text \<open>With an image that the blocks tile exactly, every block of the grid is inside it.\<close>

lemma exact_grid:
  fixes n m :: nat
  assumes "0 < m" "n mod m = 0"
  shows "(n + m - 1) div m = n div m"
proof -
  from assms obtain q where n: "n = m * q" by (auto simp: mod_eq_0_iff_dvd)
  define r where "r = m - 1"
  have r: "r < m" and e: "m * q + m - 1 = r + q * m"
    using assms(1) by (simp_all add: r_def mult.commute)
  have "(r + q * m) div m = q" using r by simp
  with e have "(m * q + m - 1) div m = q" by simp
  with n assms(1) show ?thesis by simp
qed

lemma exact_grid_block:
  fixes n m b :: nat
  assumes m: "0 < m" and d: "n mod m = 0" and b: "b < (n + m - 1) div m"
  shows "b * m + m \<le> n"
proof -
  from b have "b < n div m" unfolding exact_grid [OF m d] .
  then have "Suc b \<le> n div m" by simp
  then have "Suc b * m \<le> n" using m by (simp add: less_eq_div_iff_mult_less_eq)
  then show ?thesis by simp
qed

lemma grid_block_inside:
  assumes ok: "config_ok c" and L: "launch_ok c L"
    and dy: "image_height c mod (block_size_y c * tile_size_y c) = 0"
    and dx: "image_width c mod (block_size_x c * tile_size_x c) = 0"
    and by_grid: "bidy < grid_dim_y L" and bx_grid: "bidx < grid_dim_x L"
  shows "block_inside c (bidy * block_size_y c * tile_size_y c)
           (bidx * block_size_x c * tile_size_x c)"
proof -
  have my: "0 < block_size_y c * tile_size_y c" and mx: "0 < block_size_x c * tile_size_x c"
    using ok by (simp_all add: config_ok_def)
  have "bidy * (block_size_y c * tile_size_y c) + block_size_y c * tile_size_y c
          \<le> image_height c"
    using by_grid L by (intro exact_grid_block [OF my dy]) (simp add: launch_ok_def)
  moreover
  have "bidx * (block_size_x c * tile_size_x c) + block_size_x c * tile_size_x c
          \<le> image_width c"
    using bx_grid L by (intro exact_grid_block [OF mx dx]) (simp add: launch_ok_def)
  ultimately show ?thesis by (simp add: block_inside_def mult.assoc)
qed

lemma inside_origin_fits:
  assumes ok: "config_ok c" and ins: "block_inside c b_y b_x"
  shows "unsigned_to_int b_y = int b_y" and "unsigned_to_int b_x = int b_x"
proof -
  from ok ins have "b_y < 2 ^ 31" and "b_x < 2 ^ 31"
    by (simp_all add: config_ok_def block_inside_def)
  then show "unsigned_to_int b_y = int b_y" and "unsigned_to_int b_x = int b_x"
    by (simp_all add: unsigned_to_int_small)
qed

lemma run_block_variants:
  assumes ok: "config_ok c" and L: "launch_ok c L"
    and dy: "image_height c mod (block_size_y c * tile_size_y c) = 0"
    and dx: "image_width c mod (block_size_x c * tile_size_x c) = 0"
    and by_grid: "bidy < grid_dim_y L" and bx_grid: "bidx < grid_dim_x L"
  shows "run_block True c L garbage input d_filter bidy bidx s =
         run_block False c L garbage input d_filter bidy bidx s"
proof -
  note ins = grid_block_inside [OF assms]
  note org = inside_origin_fits [OF ok ins]
  have dims: "block_dim_y L = block_size_y c" "block_dim_x L = block_size_x c"
    using L by (simp_all add: launch_ok_def)
  have cb: "compute_block True c L d_filter junk (int (bidy * block_size_y c * tile_size_y c))
          (int (bidx * block_size_x c * tile_size_x c)) =
        compute_block False c L d_filter junk (int (bidy * block_size_y c * tile_size_y c))
          (int (bidx * block_size_x c * tile_size_x c))" for junk
    by (rule ext) (rule compute_block_variants [OF ins dims])
  show ?thesis
    unfolding run_block_def Let_def org cb stage_block_variants [OF ok ins] by (rule refl)
qed

text \<open>
  C4. When \<open>image_height\<close> is a multiple of \<open>block_size_y * tile_size_y\<close> and
  \<open>image_width\<close> a multiple of \<open>block_size_x * tile_size_x\<close>, the variant with the
  unconditional loads and stores and the variant with the boundary checks give the same
  result, output buffer included, for every input, every filter, every content of the
  shared memory and every starting state, under the launch the kernel is written for.
\<close>

theorem variants_agree_on_exact_tiling:
  assumes "config_ok c" and "launch_ok c L"
    and "image_height c mod (block_size_y c * tile_size_y c) = 0"
    and "image_width c mod (block_size_x c * tile_size_x c) = 0"
  shows "tiled_kernel True c L garbage input d_filter filter_arg s =
         tiled_kernel False c L garbage input d_filter filter_arg s"
  unfolding tiled_kernel_def
  by (intro for_loop_cong_range run_block_variants assms) simp_all

theorem variants_agree_on_exact_tiling_witness:
  "config_ok even_cfg \<and> launch_ok even_cfg even_launch \<and>
   image_height even_cfg mod (block_size_y even_cfg * tile_size_y even_cfg) = 0 \<and>
   image_width even_cfg mod (block_size_x even_cfg * tile_size_x even_cfg) = 0 \<and>
   tiled_kernel True even_cfg even_launch (\<lambda>_ _. 7) [1 .. 16] [1, 0, 0, 0, 1, 0, 0, 0, 1] []
     (launch_state [0, 0, 0, 0] (\<lambda>_. 0)) =
   tiled_kernel False even_cfg even_launch (\<lambda>_ _. 7) [1 .. 16] [1, 0, 0, 0, 1, 0, 0, 0, 1] []
     (launch_state [0, 0, 0, 0] (\<lambda>_. 0))"
  using variants_agree_on_exact_tiling [of even_cfg even_launch "\<lambda>_ _. 7" "[1 .. 16]"
      "[1, 0, 0, 0, 1, 0, 0, 0, 1]" "[]" "launch_state [0, 0, 0, 0] (\<lambda>_. 0)"]
  by (simp add: geometry_defs instance_defs)


section \<open>The staging phase fills what it has to fill\<close>

lemma i_end_le_rows: "i < i_end c \<Longrightarrow> i < sh_rows c"
  by (simp add: i_end_def sh_rows_def)

lemma j_end_le_cols: "j < j_end c \<Longrightarrow> j < sh_cols c"
  by (simp add: j_end_def sh_cols_def)

lemma stage_elem_cover:
  assumes len: "length input = input_height c * input_width c"
    and mode: "chk \<or> block_inside c b_y b_x"
    and i: "i < i_end c" and j: "j < j_end c"
  shows "\<exists>s'. stage_elem chk c input (int b_y) (int b_x) i j s = Some (Inr s') \<and> True \<and>
     (\<forall>p. staged_at c input b_y b_x p s \<or> (p = (i, j) \<and> stage_target c b_y b_x p)
          \<longrightarrow> staged_at c input b_y b_x p s')"
proof (cases "b_y + i < input_height c \<and> b_x + j < input_width c")
  case True
  then have idx: "(b_y + i) * input_width c + (b_x + j) < length input"
    using len by (simp add: flat_index_less)
  have "stage_elem chk c input (int b_y) (int b_x) i j s =
      Some (Inr (s\<lparr>sh_input := (sh_input s)((i, j) \<mapsto>
         input ! ((b_y + i) * input_width c + (b_x + j)))\<rparr>))"
    using True idx i_end_le_rows [OF i] j_end_le_cols [OF j]
    by (simp add: stage_elem_int load_def sh_store_def)
  then show ?thesis by (auto simp: staged_at_def)
next
  case False
  with mode have chk: chk
    using block_inside_rows [OF _ i] block_inside_cols [OF _ j] by blast
  with False have "stage_elem chk c input (int b_y) (int b_x) i j s = Some (Inr s)"
    by (auto simp: stage_elem_int)
  with False show ?thesis by (auto simp: stage_target_def)
qed

lemma stage_thread_cover:
  assumes ok: "config_ok c"
    and len: "length input = input_height c * input_width c"
    and mode: "chk \<or> block_inside c b_y b_x"
  shows "\<exists>s'. stage_thread chk c input (int b_y) (int b_x) ty tx s = Some (Inr s') \<and> True \<and>
     (\<forall>p. staged_at c input b_y b_x p s \<or>
          (\<exists>i. ty \<le> i \<and> i < i_end c \<and> block_size_y c dvd (i - ty) \<and>
            (\<exists>j. tx \<le> j \<and> j < j_end c \<and> block_size_x c dvd (j - tx) \<and>
               p = (i, j) \<and> stage_target c b_y b_x p))
          \<longrightarrow> staged_at c input b_y b_x p s')"
proof -
  have sx: "0 < block_size_x c" and sy: "0 < block_size_y c"
    using ok by (simp_all add: config_ok_def)
  let ?Q = "staged_at c input b_y b_x"
  let ?D2 = "\<lambda>i j p. p = (i, j) \<and> stage_target c b_y b_x p"
  let ?D1 = "\<lambda>i p. \<exists>j. tx \<le> j \<and> j < j_end c \<and> block_size_x c dvd (j - tx) \<and> ?D2 i j p"
  have row: "\<exists>s'. for_loop (\<lambda>j. stage_elem chk c input (int b_y) (int b_x) i j) tx (j_end c)
                 (block_size_x c) t = Some (Inr s') \<and> True \<and>
       (\<forall>p. ?Q p t \<or> ?D1 i p \<longrightarrow> ?Q p s')" if "i < i_end c" for i t
    by (rule for_loop_cover [where I = "\<lambda>_. True" and Q = ?Q and D = "?D2 i", OF sx TrueI])
       (rule stage_elem_cover [OF len mode that])
  show ?thesis
    unfolding stage_thread_def
    by (rule for_loop_cover [where I = "\<lambda>_. True" and Q = ?Q and D = ?D1, OF sy TrueI])
       (rule row)
qed

lemma stage_block_cover:
  assumes ok: "config_ok c"
    and len: "length input = input_height c * input_width c"
    and mode: "chk \<or> block_inside c b_y b_x"
  shows "\<exists>s'. stage_block chk c L input (int b_y) (int b_x) s = Some (Inr s') \<and> True \<and>
     (\<forall>p. staged_at c input b_y b_x p s \<or>
          (\<exists>ty. 0 \<le> ty \<and> ty < block_dim_y L \<and> 1 dvd (ty - 0) \<and>
           (\<exists>tx. 0 \<le> tx \<and> tx < block_dim_x L \<and> 1 dvd (tx - 0) \<and>
            (\<exists>i. ty \<le> i \<and> i < i_end c \<and> block_size_y c dvd (i - ty) \<and>
             (\<exists>j. tx \<le> j \<and> j < j_end c \<and> block_size_x c dvd (j - tx) \<and>
                p = (i, j) \<and> stage_target c b_y b_x p))))
          \<longrightarrow> staged_at c input b_y b_x p s')"
proof -
  let ?Q = "staged_at c input b_y b_x"
  let ?D2 = "\<lambda>ty tx p. \<exists>i. ty \<le> i \<and> i < i_end c \<and> block_size_y c dvd (i - ty) \<and>
             (\<exists>j. tx \<le> j \<and> j < j_end c \<and> block_size_x c dvd (j - tx) \<and>
                p = (i, j) \<and> stage_target c b_y b_x p)"
  let ?D1 = "\<lambda>ty p. \<exists>tx. 0 \<le> tx \<and> tx < block_dim_x L \<and> 1 dvd (tx - 0) \<and> ?D2 ty tx p"
  have row: "\<exists>s'. for_loop (\<lambda>tx. stage_thread chk c input (int b_y) (int b_x) ty tx) 0 (block_dim_x L) 1 t
                 = Some (Inr s') \<and> True \<and>
       (\<forall>p. ?Q p t \<or> ?D1 ty p \<longrightarrow> ?Q p s')" for ty t
    by (rule for_loop_cover [where I = "\<lambda>_. True" and Q = ?Q and D = "?D2 ty",
          OF zero_less_one TrueI])
       (rule stage_thread_cover [OF ok len mode])
  show ?thesis
    unfolding stage_block_def
    by (rule for_loop_cover [where I = "\<lambda>_. True" and Q = ?Q and D = ?D1,
          OF zero_less_one TrueI])
       (rule row)
qed

lemma stride_hits:
  fixes b r :: nat
  assumes "0 < b"
  shows "r mod b < b \<and> r mod b \<le> r \<and> b dvd (r - r mod b)"
  using assms by (simp add: dvd_minus_mod)

text \<open>
  After the staging phase of a block, with one thread per \<^verbatim>\<open>block_size\<close> position,
  every position that has to be filled holds its input element.
\<close>

lemma stage_block_staged:
  assumes ok: "config_ok c"
    and dims: "block_dim_y L = block_size_y c" "block_dim_x L = block_size_x c"
    and len: "length input = input_height c * input_width c"
    and mode: "chk \<or> block_inside c b_y b_x"
  shows "\<exists>s'. stage_block chk c L input (int b_y) (int b_x) s = Some (Inr s') \<and>
     (\<forall>p. stage_target c b_y b_x p \<longrightarrow> staged_at c input b_y b_x p s')"
proof -
  have sx: "0 < block_size_x c" and sy: "0 < block_size_y c"
    using ok by (simp_all add: config_ok_def)
  let ?D = "\<lambda>p. \<exists>ty. 0 \<le> ty \<and> ty < block_dim_y L \<and> 1 dvd (ty - 0) \<and>
           (\<exists>tx. 0 \<le> tx \<and> tx < block_dim_x L \<and> 1 dvd (tx - 0) \<and>
            (\<exists>i. ty \<le> i \<and> i < i_end c \<and> block_size_y c dvd (i - ty) \<and>
             (\<exists>j. tx \<le> j \<and> j < j_end c \<and> block_size_x c dvd (j - tx) \<and>
                p = (i, j) \<and> stage_target c b_y b_x p)))"
  from stage_block_cover [OF ok len mode, of L s] obtain s' where
    r: "stage_block chk c L input (int b_y) (int b_x) s = Some (Inr s')" and
    cov0: "\<forall>p. staged_at c input b_y b_x p s \<or> ?D p \<longrightarrow> staged_at c input b_y b_x p s'"
    by (elim exE conjE)
  have cov: "staged_at c input b_y b_x p s'" if "?D p" for p
    using cov0 that by (elim allE [of _ p] impE) (rule disjI2)
  have "staged_at c input b_y b_x p s'" if t: "stage_target c b_y b_x p" for p
  proof (rule cov, intro exI conjI)
    show "p = (fst p, snd p)" by simp
    show "stage_target c b_y b_x p" by (rule t)
    show "fst p < i_end c" "snd p < j_end c" using t by (simp_all add: stage_target_def)
    show "fst p mod block_size_y c < block_dim_y L" "fst p mod block_size_y c \<le> fst p"
      "block_size_y c dvd fst p - fst p mod block_size_y c"
      using stride_hits [OF sy, of "fst p"] dims by simp_all
    show "snd p mod block_size_x c < block_dim_x L" "snd p mod block_size_x c \<le> snd p"
      "block_size_x c dvd snd p - snd p mod block_size_x c"
      using stride_hits [OF sx, of "snd p"] dims by simp_all
  qed simp_all
  with r show ?thesis by blast
qed


section \<open>The registers after the accumulation loops\<close>

text \<open>
  A counted loop whose iterations change each register on its own, and nothing else
  but ghost state, changes each register by the fold of these changes.
\<close>

lemma for_loop_pointwise:
  assumes I: "I s"
    and step: "\<And>k t. k < n \<Longrightarrow> I t \<Longrightarrow>
       \<exists>t'. body k t = Some (Inr t') \<and> I t' \<and> compute_frame t t' \<and>
            (\<forall>p. sum_reg t' p = A k p (sum_reg t p))"
  shows "\<exists>s'. for_loop body 0 n 1 s = Some (Inr s') \<and> I s' \<and> compute_frame s s' \<and>
            (\<forall>p. sum_reg s' p = fold (\<lambda>k. A k p) [0..<n] (sum_reg s p))"
proof -
  define J where "J k t \<longleftrightarrow> k \<le> n \<and> I t \<and> compute_frame s t \<and>
      (\<forall>p. sum_reg t p = fold (\<lambda>k. A k p) [0..<k] (sum_reg s p))" for k t
  have J0: "J 0 s" using I by (simp add: J_def compute_frame_refl)
  have Jstep: "\<exists>t'. body k t = Some (Inr t') \<and> J (k + 1) t'" if k: "k < n" and j: "J k t" for k t
  proof -
    from j have It: "I t" and fr: "compute_frame s t"
      and regs: "\<And>p. sum_reg t p = fold (\<lambda>k. A k p) [0..<k] (sum_reg s p)"
      by (auto simp: J_def)
    from step [OF k It] obtain t' where b: "body k t = Some (Inr t')" and It': "I t'"
      and fr': "compute_frame t t'" and regs': "\<And>p. sum_reg t' p = A k p (sum_reg t p)"
      by blast
    have "J (k + 1) t'"
      using k It' compute_frame_trans [OF fr fr'] by (simp add: J_def regs' regs)
    with b show ?thesis by blast
  qed
  from for_loop_total [of 1 J 0 s n body, OF zero_less_one J0 Jstep]
  obtain s' k where r: "for_loop body 0 n 1 s = Some (Inr s')" and j: "J k s'" and nk: "n \<le> k"
    by blast
  from j nk have "k = n" by (simp add: J_def)
  with j have "I s'" "compute_frame s s'"
    "\<forall>p. sum_reg s' p = fold (\<lambda>k. A k p) [0..<n] (sum_reg s p)"
    by (auto simp: J_def)
  with r show ?thesis by blast
qed

lemma fold_hit_col:
  "fold (\<lambda>xi a. if p = (yi, xi) then g a else a) [0..<m] a =
     (if fst p = yi \<and> snd p < m then g a else a)"
proof (cases p)
  case (Pair py px)
  have "fold (\<lambda>xi a. if py = yi \<and> px = xi then g a else a) [0..<m] a =
     (if py = yi \<and> px < m then g a else a)"
    by (induction m) (auto simp: less_Suc_eq)
  with Pair show ?thesis by simp
qed

lemma fold_hit_tile:
  "fold (\<lambda>yi. fold (\<lambda>xi a. if p = (yi, xi) then g a else a) [0..<m]) [0..<n] a =
     (if fst p < n \<and> snd p < m then g a else a)"
proof -
  have "fold (\<lambda>yi a. if fst p = yi \<and> snd p < m then g a else a) [0..<n] a =
     (if fst p < n \<and> snd p < m then g a else a)"
    by (induction n) (auto simp: less_Suc_eq)
  moreover have "(\<lambda>yi. fold (\<lambda>xi a. if p = (yi, xi) then g a else a) [0..<m]) =
     (\<lambda>yi a. if fst p = yi \<and> snd p < m then g a else a)"
    by (intro ext) (rule fold_hit_col)
  ultimately show ?thesis by simp
qed

lemma sh_index_in_rows:
  assumes "ty < block_size_y c" "yi < tile_size_y c" "i < filter_height c"
  shows "ty + yi * block_size_y c + i < sh_rows c"
proof -
  have "ty + yi * block_size_y c < block_size_y c * tile_size_y c"
    using assms by (simp add: tile_offset_less)
  moreover have "i \<le> border_height c" using assms(3) by (simp add: border_height_def)
  ultimately show ?thesis by (simp add: sh_rows_def)
qed

lemma sh_index_in_cols:
  assumes "tx < block_size_x c" "xi < tile_size_x c" "j < filter_width c"
  shows "tx + xi * block_size_x c + j < sh_cols c"
proof -
  have "tx + xi * block_size_x c < block_size_x c * tile_size_x c"
    using assms by (simp add: tile_offset_less)
  moreover have "j \<le> border_width c" using assms(3) by (simp add: border_width_def)
  ultimately show ?thesis by (simp add: sh_cols_def)
qed

lemma acc_elem_step:
  assumes sh: "sh_input t = sh"
    and lenf: "length d_filter = filter_height c * filter_width c"
    and t: "ty < block_size_y c" "tx < block_size_x c"
    and ij: "i < filter_height c" "j < filter_width c"
    and yx: "yi < tile_size_y c" "xi < tile_size_x c"
  shows "\<exists>t'. acc_elem c d_filter junk ty tx i j yi xi t = Some (Inr t') \<and> sh_input t' = sh \<and>
      compute_frame t t' \<and>
      (\<forall>p. sum_reg t' p =
         (if p = (yi, xi) then (\<lambda>a. a + acc_term c d_filter junk sh ty tx i j p) (sum_reg t p)
          else sum_reg t p))"
  using sh_index_in_rows [OF t(1) yx(1) ij(1)] sh_index_in_cols [OF t(2) yx(2) ij(2)]
    filter_index_less [OF ij] lenf sh
  by (auto simp: acc_elem_def sh_load_def load_def acc_term_def compute_frame_def)

lemma accumulate_regs:
  assumes sh: "sh_input s = sh"
    and lenf: "length d_filter = filter_height c * filter_width c"
    and t: "ty < block_size_y c" "tx < block_size_x c"
  shows "\<exists>s'. accumulate c d_filter junk ty tx s = Some (Inr s') \<and> sh_input s' = sh \<and>
      compute_frame s s' \<and>
      (\<forall>p. sum_reg s' p =
         (if fst p < tile_size_y c \<and> snd p < tile_size_x c
          then fold (\<lambda>i. fold (\<lambda>j a. a + acc_term c d_filter junk sh ty tx i j p)
                            [0..<filter_width c]) [0..<filter_height c] (sum_reg s p)
          else sum_reg s p))"
proof -
  let ?I = "\<lambda>t. sh_input t = sh"
  let ?T = "acc_term c d_filter junk sh ty tx"
  let ?A4 = "\<lambda>i j yi xi p a. if p = (yi, xi) then (\<lambda>a. a + ?T i j p) a else a"
  let ?A3 = "\<lambda>i j yi p. fold (\<lambda>xi. ?A4 i j yi xi p) [0..<tile_size_x c]"
  let ?A2 = "\<lambda>i j p. fold (\<lambda>yi. ?A3 i j yi p) [0..<tile_size_y c]"
  let ?A1 = "\<lambda>i p. fold (\<lambda>j. ?A2 i j p) [0..<filter_width c]"
  have l4: "\<exists>t'. for_loop (\<lambda>xi. acc_elem c d_filter junk ty tx i j yi xi) 0 (tile_size_x c) 1 t
        = Some (Inr t') \<and> ?I t' \<and> compute_frame t t' \<and>
        (\<forall>p. sum_reg t' p = ?A3 i j yi p (sum_reg t p))"
    if "i < filter_height c" "j < filter_width c" "yi < tile_size_y c" "?I t" for i j yi t
    by (rule for_loop_pointwise [where I = ?I and A = "?A4 i j yi", OF that(4)])
       (rule acc_elem_step [OF _ lenf t that(1,2,3)])
  have l3: "\<exists>t'. for_loop (\<lambda>yi. for_loop (\<lambda>xi. acc_elem c d_filter junk ty tx i j yi xi)
          0 (tile_size_x c) 1) 0 (tile_size_y c) 1 t
        = Some (Inr t') \<and> ?I t' \<and> compute_frame t t' \<and>
        (\<forall>p. sum_reg t' p = ?A2 i j p (sum_reg t p))"
    if "i < filter_height c" "j < filter_width c" "?I t" for i j t
    by (rule for_loop_pointwise [where I = ?I and A = "?A3 i j", OF that(3)])
       (rule l4 [OF that(1,2)])
  have l2: "\<exists>t'. for_loop (\<lambda>j. for_loop (\<lambda>yi. for_loop
          (\<lambda>xi. acc_elem c d_filter junk ty tx i j yi xi)
          0 (tile_size_x c) 1) 0 (tile_size_y c) 1) 0 (filter_width c) 1 t
        = Some (Inr t') \<and> ?I t' \<and> compute_frame t t' \<and>
        (\<forall>p. sum_reg t' p = ?A1 i p (sum_reg t p))"
    if "i < filter_height c" "?I t" for i t
    by (rule for_loop_pointwise [where I = ?I and A = "?A2 i", OF that(2)])
       (rule l3 [OF that(1)])
  have l1: "\<exists>s'. accumulate c d_filter junk ty tx s = Some (Inr s') \<and> ?I s' \<and>
        compute_frame s s' \<and>
        (\<forall>p. sum_reg s' p = fold (\<lambda>i. ?A1 i p) [0..<filter_height c] (sum_reg s p))"
    unfolding accumulate_def
    by (rule for_loop_pointwise [where I = ?I and A = ?A1, OF sh]) (rule l2)
  have tile: "?A2 i j p = (\<lambda>a. if fst p < tile_size_y c \<and> snd p < tile_size_x c
                                then a + ?T i j p else a)" for i j p
    by (rule ext) (rule fold_hit_tile)
  have skip: "fold (\<lambda>k a. a) ks a = a" for ks :: "nat list" and a :: 'a
    by (induction ks) simp_all
  have "fold (\<lambda>i. ?A1 i p) [0..<filter_height c] a =
      (if fst p < tile_size_y c \<and> snd p < tile_size_x c
       then fold (\<lambda>i. fold (\<lambda>j a. a + ?T i j p) [0..<filter_width c])
              [0..<filter_height c] a
       else a)" for p a
  proof (cases "fst p < tile_size_y c \<and> snd p < tile_size_x c")
    case True
    then show ?thesis unfolding tile by simp
  next
    case False
    then have "(\<lambda>i. ?A1 i p) = (\<lambda>i a. a)"
      unfolding tile by (auto simp: fun_eq_iff skip)
    then have "fold (\<lambda>i. ?A1 i p) [0..<filter_height c] a = a"
      by (simp add: skip)
    then show ?thesis using False by auto
  qed
  with l1 show ?thesis by simp
qed

lemma zero_sums_regs:
  "\<exists>s'. zero_sums c s = Some (Inr s') \<and> sh_input s' = sh_input s \<and> compute_frame s s' \<and>
      (\<forall>p. sum_reg s' p =
         (if fst p < tile_size_y c \<and> snd p < tile_size_x c then 0 else sum_reg s p))"
proof -
  let ?I = "\<lambda>t. sh_input t = sh_input s"
  let ?A2 = "\<lambda>yi xi p a. if p = (yi, xi) then (\<lambda>_. 0) a else a"
  let ?A1 = "\<lambda>yi p. fold (\<lambda>xi. ?A2 yi xi p) [0..<tile_size_x c]"
  have l2: "\<exists>t'. for_loop (\<lambda>xi s. Some (Inr (s\<lparr>sum_reg := (sum_reg s)((yi, xi) := 0)\<rparr>)))
          0 (tile_size_x c) 1 t = Some (Inr t') \<and> ?I t' \<and> compute_frame t t' \<and>
        (\<forall>p. sum_reg t' p = ?A1 yi p (sum_reg t p))" if "?I t" for yi t
    by (rule for_loop_pointwise [where I = ?I and A = "?A2 yi", OF that])
       (simp add: compute_frame_def)
  have "\<exists>s'. zero_sums c s = Some (Inr s') \<and> ?I s' \<and> compute_frame s s' \<and>
        (\<forall>p. sum_reg s' p = fold (\<lambda>yi. ?A1 yi p) [0..<tile_size_y c] (sum_reg s p))"
    unfolding zero_sums_def
    by (rule for_loop_pointwise [where I = ?I and A = ?A1, OF refl]) (rule l2)
  then show ?thesis unfolding fold_hit_tile by simp
qed

section \<open>The registers of an output element inside the image\<close>

lemma target_reads_staged:
  assumes t: "ty < block_size_y c" "tx < block_size_x c"
    and yx: "yi < tile_size_y c" "xi < tile_size_x c"
    and ij: "i < filter_height c" "j < filter_width c"
    and img: "b_y + ty + yi * block_size_y c < image_height c"
      "b_x + tx + xi * block_size_x c < image_width c"
  shows "stage_target c b_y b_x (ty + yi * block_size_y c + i, tx + xi * block_size_x c + j)"
proof -
  have r: "ty + yi * block_size_y c + i < sh_rows c"
    and q: "tx + xi * block_size_x c + j < sh_cols c"
    using sh_index_in_rows [OF t(1) yx(1) ij(1)] sh_index_in_cols [OF t(2) yx(2) ij(2)] .
  have gr: "b_y + (ty + yi * block_size_y c + i) < input_height c"
    using halo_row [OF img(1) ij(1)] by (simp add: add.assoc)
  have gq: "b_x + (tx + xi * block_size_x c + j) < input_width c"
    using halo_col [OF img(2) ij(2)] by (simp add: add.assoc)
  from r q gr gq show ?thesis
    by (simp add: stage_target_def i_end_def j_end_def sh_rows_def sh_cols_def)
qed

lemma fold_cong_upt:
  assumes "\<And>k. k < n \<Longrightarrow> f k = g k"
  shows "fold f [0..<n] a = fold g [0..<n] a"
  by (rule fold_cong) (use assms in auto)

lemma staged_regs_conv:
  assumes staged: "\<And>p. stage_target c b_y b_x p \<Longrightarrow>
        sh p = Some (input ! ((b_y + fst p) * input_width c + (b_x + snd p)))"
    and t: "ty < block_size_y c" "tx < block_size_x c"
    and yx: "yi < tile_size_y c" "xi < tile_size_x c"
    and img: "b_y + ty + yi * block_size_y c < image_height c"
      "b_x + tx + xi * block_size_x c < image_width c"
  shows "fold (\<lambda>i. fold (\<lambda>j a. a + acc_term c d_filter junk sh ty tx i j (yi, xi))
                    [0..<filter_width c]) [0..<filter_height c] 0 =
         conv_at c input d_filter (b_y + ty + yi * block_size_y c)
           (b_x + tx + xi * block_size_x c)"
proof -
  have prod_eq: "acc_term c d_filter junk sh ty tx i j (yi, xi) =
      input ! ((b_y + ty + yi * block_size_y c + i) * input_width c +
               (b_x + tx + xi * block_size_x c + j)) * d_filter ! (i * filter_width c + j)"
    if ij: "i < filter_height c" "j < filter_width c" for i j
    using staged [OF target_reads_staged [OF t yx ij img]]
    by (simp add: acc_term_def sh_content_def add.assoc)
  show ?thesis
    unfolding conv_at_def
    by (intro fold_cong_upt ext) (simp add: prod_eq)
qed

lemma compute_regs:
  assumes staged: "\<And>p. stage_target c b_y b_x p \<Longrightarrow> staged_at c input b_y b_x p s"
    and lenf: "length d_filter = filter_height c * filter_width c"
    and t: "ty < block_size_y c" "tx < block_size_x c"
  shows "\<exists>s2. bind_res (zero_sums c s) (accumulate c d_filter junk ty tx) = Some (Inr s2) \<and>
      sh_input s2 = sh_input s \<and> compute_frame s s2 \<and>
      (\<forall>yi<tile_size_y c. \<forall>xi<tile_size_x c.
         b_y + ty + yi * block_size_y c < image_height c \<and>
         b_x + tx + xi * block_size_x c < image_width c \<longrightarrow>
         sum_reg s2 (yi, xi) =
           conv_at c input d_filter (b_y + ty + yi * block_size_y c)
             (b_x + tx + xi * block_size_x c))"
proof -
  from zero_sums_regs [of c s] obtain s1 where z: "zero_sums c s = Some (Inr s1)"
    and sh1: "sh_input s1 = sh_input s" and fr1: "compute_frame s s1"
    and regs1: "\<And>p. sum_reg s1 p =
         (if fst p < tile_size_y c \<and> snd p < tile_size_x c then 0 else sum_reg s p)"
    by blast
  from accumulate_regs [OF sh1 lenf t, of junk] obtain s2 where
    a: "accumulate c d_filter junk ty tx s1 = Some (Inr s2)"
    and sh2: "sh_input s2 = sh_input s" and fr2: "compute_frame s1 s2"
    and regs2: "\<And>p. sum_reg s2 p =
         (if fst p < tile_size_y c \<and> snd p < tile_size_x c
          then fold (\<lambda>i. fold (\<lambda>j a. a + acc_term c d_filter junk (sh_input s) ty tx i j p)
                            [0..<filter_width c]) [0..<filter_height c] (sum_reg s1 p)
          else sum_reg s1 p)"
    by blast
  have st: "sh_input s p = Some (input ! ((b_y + fst p) * input_width c + (b_x + snd p)))"
    if "stage_target c b_y b_x p" for p
    using staged [OF that] by (simp add: staged_at_def)
  have "sum_reg s2 (yi, xi) =
      conv_at c input d_filter (b_y + ty + yi * block_size_y c) (b_x + tx + xi * block_size_x c)"
    if "yi < tile_size_y c" "xi < tile_size_x c"
      "b_y + ty + yi * block_size_y c < image_height c"
      "b_x + tx + xi * block_size_x c < image_width c" for yi xi
    using that staged_regs_conv [OF st t that, of d_filter junk]
    by (simp add: regs2 regs1)
  with z a sh2 compute_frame_trans [OF fr1 fr2] show ?thesis by simp
qed


section \<open>The store phase and the whole tiled kernel\<close>

lemma flat_index_inj:
  fixes w :: nat
  assumes "x < w" "x' < w" "y * w + x = y' * w + x'"
  shows "y = y' \<and> x = x'"
proof -
  have "(y * w + x) div w = y" "(y' * w + x') div w = y'"
    "(y * w + x) mod w = x" "(y' * w + x') mod w = x'"
    using assms(1,2) by simp_all
  with assms(3) show ?thesis by metis
qed

lemma out_done_write:
  assumes len: "length (output_buf t) = image_height c * image_width c"
    and img: "y < image_height c" "x < image_width c"
    and v: "v = conv_at c input d_filter y x"
  shows "write_output c (int y) (int x) v t =
      Some (Inr (t\<lparr>output_buf := (output_buf t)[y * image_width c + x := v],
                   out_writes := out_writes t @ [(int y, int x)]\<rparr>)) \<and>
    (\<forall>p. out_done c input d_filter p t \<or> p = (y, x) \<longrightarrow>
       out_done c input d_filter p
         (t\<lparr>output_buf := (output_buf t)[y * image_width c + x := v],
            out_writes := out_writes t @ [(int y, int x)]\<rparr>))"
proof -
  have k: "y * image_width c + x < length (output_buf t)"
    using len img by (simp add: flat_index_less)
  have "out_done c input d_filter p
         (t\<lparr>output_buf := (output_buf t)[y * image_width c + x := v],
            out_writes := out_writes t @ [(int y, int x)]\<rparr>)"
    if h: "out_done c input d_filter p t \<or> p = (y, x)" for p
  proof (cases "p = (y, x)")
    case True
    with k img v show ?thesis by (simp add: out_done_def)
  next
    case False
    with h have d: "out_done c input d_filter p t" by simp
    then have "snd p < image_width c" by (simp add: out_done_def)
    with False img(2) have "fst p * image_width c + snd p \<noteq> y * image_width c + x"
      using flat_index_inj [of "snd p" "image_width c" x "fst p" y] by (cases p) auto
    with d show ?thesis by (simp add: out_done_def)
  qed
  with k show ?thesis by (simp add: write_output_int)
qed

lemma store_elem_cover:
  assumes regs: "\<And>yi xi. yi < tile_size_y c \<Longrightarrow> xi < tile_size_x c \<Longrightarrow>
        b_y + ty + yi * block_size_y c < image_height c \<Longrightarrow>
        b_x + tx + xi * block_size_x c < image_width c \<Longrightarrow>
        rg (yi, xi) = conv_at c input d_filter (b_y + ty + yi * block_size_y c)
           (b_x + tx + xi * block_size_x c)"
    and mode: "chk \<or> block_inside c b_y b_x"
    and t: "ty < block_size_y c" "tx < block_size_x c"
    and yx: "yi < tile_size_y c" "xi < tile_size_x c"
    and I: "length (output_buf s) = image_height c * image_width c \<and> sum_reg s = rg \<and>
            sh_input s = sh"
  shows "\<exists>s'. store_elem chk c (int b_y) (int b_x) ty tx yi xi s = Some (Inr s') \<and>
      (length (output_buf s') = image_height c * image_width c \<and> sum_reg s' = rg \<and>
       sh_input s' = sh) \<and>
      (\<forall>p. out_done c input d_filter p s \<or>
           (p = (b_y + ty + yi * block_size_y c, b_x + tx + xi * block_size_x c) \<and>
            fst p < image_height c \<and> snd p < image_width c)
         \<longrightarrow> out_done c input d_filter p s')"
proof (cases "b_y + ty + yi * block_size_y c < image_height c \<and>
              b_x + tx + xi * block_size_x c < image_width c")
  case True
  from I have len: "length (output_buf s) = image_height c * image_width c"
    and rg: "sum_reg s (yi, xi) = rg (yi, xi)" by simp_all
  have v: "sum_reg s (yi, xi) = conv_at c input d_filter (b_y + ty + yi * block_size_y c)
           (b_x + tx + xi * block_size_x c)"
    using regs [OF yx] True rg by simp
  from out_done_write [OF len _ _ v] True I show ?thesis
    by (auto simp: store_elem_int)
next
  case False
  have "\<not> block_inside c b_y b_x"
  proof
    assume ins: "block_inside c b_y b_x"
    have "ty + yi * block_size_y c < block_size_y c * tile_size_y c"
      and "tx + xi * block_size_x c < block_size_x c * tile_size_x c"
      using t yx by (simp_all add: tile_offset_less)
    with ins False show False by (simp add: block_inside_def)
  qed
  with mode have chk by simp
  with False I show ?thesis by (auto simp: store_elem_int)
qed

lemma for_loop_cover_upto:
  assumes I: "I s"
    and step: "\<And>k s. k < n \<Longrightarrow> I s \<Longrightarrow>
       \<exists>s'. body k s = Some (Inr s') \<and> I s' \<and> (\<forall>x. Q x s \<or> D k x \<longrightarrow> Q x s')"
  shows "\<exists>s'. for_loop body 0 n 1 s = Some (Inr s') \<and> I s' \<and>
     (\<forall>x. Q x s \<or> (\<exists>k<n. D k x) \<longrightarrow> Q x s')"
proof -
  have "\<exists>s'. for_loop body 0 n 1 s = Some (Inr s') \<and> I s' \<and>
     (\<forall>x. Q x s \<or> (\<exists>k. 0 \<le> k \<and> k < n \<and> 1 dvd (k - 0) \<and> D k x) \<longrightarrow> Q x s')"
    by (rule for_loop_cover [where I = I and Q = Q and D = D, OF zero_less_one I]) (rule step)
  then obtain s' where r: "for_loop body 0 n 1 s = Some (Inr s')" and i: "I s'"
    and c: "\<forall>x. Q x s \<or> (\<exists>k. 0 \<le> k \<and> k < n \<and> 1 dvd (k - 0) \<and> D k x) \<longrightarrow> Q x s'"
    by (elim exE conjE)
  have "Q x s'" if "Q x s \<or> (\<exists>k<n. D k x)" for x
    using c that by (elim allE [of _ x]) auto
  with r i show ?thesis by blast
qed

lemma bind_res_assoc:
  "bind_res (bind_res m f) g = bind_res m (\<lambda>x. bind_res (f x) g)"
  by (auto simp: bind_res_def split: option.splits sum.splits)

lemma out_done_cong:
  "output_buf s = output_buf t \<Longrightarrow>
     out_done c input d_filter p s = out_done c input d_filter p t"
  by (simp add: out_done_def)

text \<open>The output elements that the thread \<open>(ty, tx)\<close> of a block is responsible for.\<close>

lemma store_sums_cover:
  assumes regs: "\<And>yi xi. yi < tile_size_y c \<Longrightarrow> xi < tile_size_x c \<Longrightarrow>
        b_y + ty + yi * block_size_y c < image_height c \<Longrightarrow>
        b_x + tx + xi * block_size_x c < image_width c \<Longrightarrow>
        rg (yi, xi) = conv_at c input d_filter (b_y + ty + yi * block_size_y c)
           (b_x + tx + xi * block_size_x c)"
    and mode: "chk \<or> block_inside c b_y b_x"
    and t: "ty < block_size_y c" "tx < block_size_x c"
    and I: "length (output_buf s) = image_height c * image_width c \<and> sum_reg s = rg \<and>
            sh_input s = sh"
  shows "\<exists>s'. store_sums chk c (int b_y) (int b_x) ty tx s = Some (Inr s') \<and>
      (length (output_buf s') = image_height c * image_width c \<and> sum_reg s' = rg \<and>
       sh_input s' = sh) \<and>
      (\<forall>p. out_done c input d_filter p s \<or>
           (\<exists>yi<tile_size_y c. \<exists>xi<tile_size_x c.
              p = (b_y + ty + yi * block_size_y c, b_x + tx + xi * block_size_x c) \<and>
              fst p < image_height c \<and> snd p < image_width c)
         \<longrightarrow> out_done c input d_filter p s')"
proof -
  let ?I = "\<lambda>t. length (output_buf t) = image_height c * image_width c \<and> sum_reg t = rg \<and>
            sh_input t = sh"
  let ?Q = "out_done c input d_filter"
  let ?D2 = "\<lambda>yi xi p. p = (b_y + ty + yi * block_size_y c, b_x + tx + xi * block_size_x c) \<and>
              fst p < image_height c \<and> snd p < image_width c"
  let ?D1 = "\<lambda>yi p. \<exists>xi<tile_size_x c. ?D2 yi xi p"
  have row: "\<exists>t'. for_loop (\<lambda>xi. store_elem chk c (int b_y) (int b_x) ty tx yi xi) 0 (tile_size_x c) 1 t
        = Some (Inr t') \<and> ?I t' \<and> (\<forall>p. ?Q p t \<or> ?D1 yi p \<longrightarrow> ?Q p t')"
    if "yi < tile_size_y c" "?I t" for yi t
    by (rule for_loop_cover_upto [where I = ?I and Q = ?Q and D = "?D2 yi", OF that(2)])
       (rule store_elem_cover [OF regs mode t that(1)])
  show ?thesis
    unfolding store_sums_def
    by (rule for_loop_cover_upto [where I = ?I and Q = ?Q and D = ?D1, OF I]) (rule row)
qed

lemma compute_thread_cover:
  assumes staged: "\<And>p. stage_target c b_y b_x p \<Longrightarrow>
        sh p = Some (input ! ((b_y + fst p) * input_width c + (b_x + snd p)))"
    and lenf: "length d_filter = filter_height c * filter_width c"
    and mode: "chk \<or> block_inside c b_y b_x"
    and t: "ty < block_size_y c" "tx < block_size_x c"
    and I: "length (output_buf s) = image_height c * image_width c \<and> sh_input s = sh"
  shows "\<exists>s'. compute_thread chk c d_filter junk (int b_y) (int b_x) ty tx s = Some (Inr s') \<and>
      (length (output_buf s') = image_height c * image_width c \<and> sh_input s' = sh) \<and>
      (\<forall>p. out_done c input d_filter p s \<or>
           (\<exists>yi<tile_size_y c. \<exists>xi<tile_size_x c.
              p = (b_y + ty + yi * block_size_y c, b_x + tx + xi * block_size_x c) \<and>
              fst p < image_height c \<and> snd p < image_width c)
         \<longrightarrow> out_done c input d_filter p s')"
proof -
  have st: "staged_at c input b_y b_x p s" if "stage_target c b_y b_x p" for p
    using staged [OF that] I by (simp add: staged_at_def)
  from compute_regs [OF st lenf t, of junk] obtain s2 where
    za: "bind_res (zero_sums c s) (accumulate c d_filter junk ty tx) = Some (Inr s2)"
    and sh2: "sh_input s2 = sh_input s" and fr: "compute_frame s s2"
    and regs: "\<And>yi xi. yi < tile_size_y c \<Longrightarrow> xi < tile_size_x c \<Longrightarrow>
        b_y + ty + yi * block_size_y c < image_height c \<Longrightarrow>
        b_x + tx + xi * block_size_x c < image_width c \<Longrightarrow>
        sum_reg s2 (yi, xi) = conv_at c input d_filter (b_y + ty + yi * block_size_y c)
           (b_x + tx + xi * block_size_x c)"
    by blast
  have ob: "output_buf s2 = output_buf s" using fr by (simp add: compute_frame_def)
  have I2: "length (output_buf s2) = image_height c * image_width c \<and>
      sum_reg s2 = sum_reg s2 \<and> sh_input s2 = sh"
    using I ob sh2 by simp
  have ct: "compute_thread chk c d_filter junk (int b_y) (int b_x) ty tx s = store_sums chk c (int b_y) (int b_x) ty tx s2"
    using za by (simp add: compute_thread_def bind_res_assoc [symmetric])
  have "\<exists>s'. store_sums chk c (int b_y) (int b_x) ty tx s2 = Some (Inr s') \<and>
      (length (output_buf s') = image_height c * image_width c \<and> sum_reg s' = sum_reg s2 \<and>
       sh_input s' = sh) \<and>
      (\<forall>p. out_done c input d_filter p s2 \<or>
           (\<exists>yi<tile_size_y c. \<exists>xi<tile_size_x c.
              p = (b_y + ty + yi * block_size_y c, b_x + tx + xi * block_size_x c) \<and>
              fst p < image_height c \<and> snd p < image_width c)
         \<longrightarrow> out_done c input d_filter p s')"
    by (rule store_sums_cover [where rg = "sum_reg s2", OF _ mode t I2]) (rule regs)
  then obtain s' where
    r: "store_sums chk c (int b_y) (int b_x) ty tx s2 = Some (Inr s')"
    and i: "length (output_buf s') = image_height c * image_width c" "sh_input s' = sh"
    and c: "\<forall>p. out_done c input d_filter p s2 \<or>
           (\<exists>yi<tile_size_y c. \<exists>xi<tile_size_x c.
              p = (b_y + ty + yi * block_size_y c, b_x + tx + xi * block_size_x c) \<and>
              fst p < image_height c \<and> snd p < image_width c)
         \<longrightarrow> out_done c input d_filter p s'"
    by (elim exE conjE)
  from c show ?thesis
    unfolding ct r out_done_cong [OF ob] using i by simp
qed

lemma compute_block_cover:
  assumes staged: "\<And>p. stage_target c b_y b_x p \<Longrightarrow>
        sh p = Some (input ! ((b_y + fst p) * input_width c + (b_x + snd p)))"
    and lenf: "length d_filter = filter_height c * filter_width c"
    and mode: "chk \<or> block_inside c b_y b_x"
    and dims: "block_dim_y L = block_size_y c" "block_dim_x L = block_size_x c"
    and I: "length (output_buf s) = image_height c * image_width c \<and> sh_input s = sh"
  shows "\<exists>s'. compute_block chk c L d_filter junk (int b_y) (int b_x) s = Some (Inr s') \<and>
      (length (output_buf s') = image_height c * image_width c \<and> sh_input s' = sh) \<and>
      (\<forall>p. out_done c input d_filter p s \<or>
           (\<exists>ty<block_dim_y L. \<exists>tx<block_dim_x L. thread_outputs c b_y b_x ty tx p)
         \<longrightarrow> out_done c input d_filter p s')"
proof -
  let ?I = "\<lambda>t. length (output_buf t) = image_height c * image_width c \<and> sh_input t = sh"
  let ?Q = "out_done c input d_filter"
  let ?D1 = "\<lambda>ty p. \<exists>tx<block_dim_x L. thread_outputs c b_y b_x ty tx p"
  have thread: "\<exists>t'. compute_thread chk c d_filter junk (int b_y) (int b_x) ty tx t = Some (Inr t') \<and>
        ?I t' \<and> (\<forall>p. ?Q p t \<or> thread_outputs c b_y b_x ty tx p \<longrightarrow> ?Q p t')"
    if "ty < block_dim_y L" "tx < block_dim_x L" "?I t" for ty tx t
    unfolding thread_outputs_def
    by (rule compute_thread_cover [OF _ lenf mode _ _ that(3)])
       (use that(1,2) dims staged in simp_all)
  have row: "\<exists>t'. for_loop (\<lambda>tx. compute_thread chk c d_filter junk (int b_y) (int b_x) ty tx)
          0 (block_dim_x L) 1 t = Some (Inr t') \<and>
        ?I t' \<and> (\<forall>p. ?Q p t \<or> ?D1 ty p \<longrightarrow> ?Q p t')"
    if "ty < block_dim_y L" "?I t" for ty t
    by (rule for_loop_cover_upto [where I = ?I and Q = ?Q
          and D = "thread_outputs c b_y b_x ty", OF that(2)])
       (rule thread [OF that(1)])
  show ?thesis
    unfolding compute_block_def
    by (rule for_loop_cover_upto [where I = ?I and Q = ?Q and D = ?D1, OF I]) (rule row)
qed

lemma run_block_cover:
  assumes ok: "config_ok c"
    and dims: "block_dim_y L = block_size_y c" "block_dim_x L = block_size_x c"
    and len: "length input = input_height c * input_width c"
    and lenf: "length d_filter = filter_height c * filter_width c"
    and mode: "chk \<or> block_inside c (bidy * block_size_y c * tile_size_y c)
                       (bidx * block_size_x c * tile_size_x c)"
    and org: "unsigned_to_int (bidy * block_size_y c * tile_size_y c) =
                int (bidy * block_size_y c * tile_size_y c)"
             "unsigned_to_int (bidx * block_size_x c * tile_size_x c) =
                int (bidx * block_size_x c * tile_size_x c)"
    and I: "length (output_buf s) = image_height c * image_width c"
  shows "\<exists>s'. run_block chk c L garbage input d_filter bidy bidx s = Some (Inr s') \<and>
      length (output_buf s') = image_height c * image_width c \<and>
      (\<forall>p. out_done c input d_filter p s \<or> block_outputs c L bidy bidx p
         \<longrightarrow> out_done c input d_filter p s')"
proof -
  let ?by = "bidy * block_size_y c * tile_size_y c"
  let ?bx = "bidx * block_size_x c * tile_size_x c"
  let ?s0 = "s\<lparr>sh_input := Map.empty\<rparr>"
  from stage_block_staged [OF ok dims len mode, of ?s0] obtain s1 where
    st: "stage_block chk c L input (int ?by) (int ?bx) ?s0 = Some (Inr s1)"
    and staged: "\<And>p. stage_target c ?by ?bx p \<Longrightarrow> staged_at c input ?by ?bx p s1"
    by blast
  from stage_block_frame [OF ok st] have ob: "output_buf s1 = output_buf s"
    by (simp add: stage_frame_def)
  have I1: "length (output_buf s1) = image_height c * image_width c \<and>
      sh_input s1 = sh_input s1"
    using I ob by simp
  have "\<exists>s'. compute_block chk c L d_filter (garbage (bidy, bidx)) (int ?by) (int ?bx) s1 =
          Some (Inr s') \<and>
      (length (output_buf s') = image_height c * image_width c \<and> sh_input s' = sh_input s1) \<and>
      (\<forall>p. out_done c input d_filter p s1 \<or>
           (\<exists>ty<block_dim_y L. \<exists>tx<block_dim_x L. thread_outputs c ?by ?bx ty tx p)
         \<longrightarrow> out_done c input d_filter p s')"
    by (rule compute_block_cover [OF _ lenf mode dims I1])
       (use staged in \<open>simp add: staged_at_def\<close>)
  then obtain s' where
    r: "compute_block chk c L d_filter (garbage (bidy, bidx)) (int ?by) (int ?bx) s1 =
          Some (Inr s')"
    and l: "length (output_buf s') = image_height c * image_width c"
    and c: "\<forall>p. out_done c input d_filter p s1 \<or>
           (\<exists>ty<block_dim_y L. \<exists>tx<block_dim_x L. thread_outputs c ?by ?bx ty tx p)
         \<longrightarrow> out_done c input d_filter p s'"
    by (elim exE conjE)
  have "run_block chk c L garbage input d_filter bidy bidx s = Some (Inr s')"
    unfolding run_block_def Let_def org st by (simp add: r del: of_nat_mult)
  with l c show ?thesis
    unfolding out_done_cong [OF ob] block_outputs_def by blast
qed

lemma ceil_grid_origin:
  fixes n m b :: nat
  assumes m: "0 < m" and b: "b < (n + m - 1) div m"
  shows "b * m < n"
proof -
  from b have "Suc b \<le> (n + m - 1) div m" by simp
  then have "Suc b * m \<le> n + m - 1" using m by (simp add: less_eq_div_iff_mult_less_eq)
  then show ?thesis using m by simp
qed

lemma launch_origin_fits:
  assumes ok: "config_ok c" and L: "launch_ok c L"
    and b: "bidy < grid_dim_y L" "bidx < grid_dim_x L"
  shows "unsigned_to_int (bidy * block_size_y c * tile_size_y c) =
           int (bidy * block_size_y c * tile_size_y c)"
    and "unsigned_to_int (bidx * block_size_x c * tile_size_x c) =
           int (bidx * block_size_x c * tile_size_x c)"
proof -
  have my: "0 < block_size_y c * tile_size_y c" and mx: "0 < block_size_x c * tile_size_x c"
    and hy: "image_height c < 2 ^ 31" and hx: "image_width c < 2 ^ 31"
    using ok by (simp_all add: config_ok_def)
  have "bidy * (block_size_y c * tile_size_y c) < image_height c"
    using b(1) L by (intro ceil_grid_origin [OF my]) (simp add: launch_ok_def)
  then have "bidy * (block_size_y c * tile_size_y c) < 2 ^ 31" using hy by (rule less_trans)
  then show "unsigned_to_int (bidy * block_size_y c * tile_size_y c) =
           int (bidy * block_size_y c * tile_size_y c)"
    unfolding mult.assoc by (rule unsigned_to_int_small)
  have "bidx * (block_size_x c * tile_size_x c) < image_width c"
    using b(2) L by (intro ceil_grid_origin [OF mx]) (simp add: launch_ok_def)
  then have "bidx * (block_size_x c * tile_size_x c) < 2 ^ 31" using hx by (rule less_trans)
  then show "unsigned_to_int (bidx * block_size_x c * tile_size_x c) =
           int (bidx * block_size_x c * tile_size_x c)"
    unfolding mult.assoc by (rule unsigned_to_int_small)
qed

lemma tiled_kernel_cover:
  assumes ok: "config_ok c" and L: "launch_ok c L"
    and len: "length input = input_height c * input_width c"
    and lenf: "length d_filter = filter_height c * filter_width c"
    and mode: "chk \<or> \<not> boundary_mode c"
    and I: "length (output_buf s) = image_height c * image_width c"
  shows "\<exists>s'. tiled_kernel chk c L garbage input d_filter filter_arg s = Some (Inr s') \<and>
      length (output_buf s') = image_height c * image_width c \<and>
      (\<forall>p. out_done c input d_filter p s \<or>
           (\<exists>bidy<grid_dim_y L. \<exists>bidx<grid_dim_x L. block_outputs c L bidy bidx p)
         \<longrightarrow> out_done c input d_filter p s')"
proof -
  let ?I = "\<lambda>t. length (output_buf t) = image_height c * image_width c"
  let ?Q = "out_done c input d_filter"
  let ?D1 = "\<lambda>bidy p. \<exists>bidx<grid_dim_x L. block_outputs c L bidy bidx p"
  have dims: "block_dim_y L = block_size_y c" "block_dim_x L = block_size_x c"
    using L by (simp_all add: launch_ok_def)
  have bmode: "chk \<or> block_inside c (bidy * block_size_y c * tile_size_y c)
                       (bidx * block_size_x c * tile_size_x c)"
    if "bidy < grid_dim_y L" "bidx < grid_dim_x L" for bidy bidx
  proof (cases chk)
    case False
    with mode have "image_height c mod (block_size_y c * tile_size_y c) = 0"
      and "image_width c mod (block_size_x c * tile_size_x c) = 0"
      by (simp_all add: boundary_mode_def)
    from grid_block_inside [OF ok L this that] show ?thesis ..
  qed simp
  have org: "unsigned_to_int (bidy * block_size_y c * tile_size_y c) =
                int (bidy * block_size_y c * tile_size_y c)"
             "unsigned_to_int (bidx * block_size_x c * tile_size_x c) =
                int (bidx * block_size_x c * tile_size_x c)"
    if "bidy < grid_dim_y L" "bidx < grid_dim_x L" for bidy bidx
    by (rule launch_origin_fits [OF ok L that])+
  have row: "\<exists>t'. for_loop (\<lambda>bidx. run_block chk c L garbage input d_filter bidy bidx)
          0 (grid_dim_x L) 1 t = Some (Inr t') \<and>
        ?I t' \<and> (\<forall>p. ?Q p t \<or> ?D1 bidy p \<longrightarrow> ?Q p t')"
    if "bidy < grid_dim_y L" "?I t" for bidy t
    by (rule for_loop_cover_upto [where I = ?I and Q = ?Q
          and D = "block_outputs c L bidy", OF that(2)])
       (rule run_block_cover [OF ok dims len lenf bmode [OF that(1)] org [OF that(1)]])
  show ?thesis
    unfolding tiled_kernel_def
    by (rule for_loop_cover_upto [where I = ?I and Q = ?Q and D = ?D1, OF I]) (rule row)
qed

lemma ceil_div_covers:
  fixes n m :: nat
  assumes "0 < m"
  shows "n \<le> ((n + m - 1) div m) * m"
proof -
  have "n + m - 1 < m + ((n + m - 1) div m) * m"
    using assms by (rule dividend_less_div_times)
  then show ?thesis by arith
qed

lemma tile_decompose:
  fixes y g b n :: nat
  assumes b: "0 < b" and y: "y < g * (b * n)"
  shows "\<exists>bid<g. \<exists>t<b. \<exists>k<n. y = bid * b * n + t + k * b"
proof -
  define q where "q = y div (b * n)"
  define r where "r = y mod (b * n)"
  define t where "t = r mod b"
  define k where "k = r div b"
  from y have bn: "0 < b * n" by (cases "b * n = 0") simp_all
  have r: "r < n * b" using bn by (simp add: r_def mult.commute)
  have "q < g" unfolding q_def using y by (rule less_mult_imp_div_less)
  moreover have "t < b" using b by (simp add: t_def)
  moreover have "k < n" unfolding k_def using r by (rule less_mult_imp_div_less)
  moreover have "y = q * b * n + t + k * b"
  proof -
    have 1: "y = q * (b * n) + r" unfolding q_def r_def by (rule div_mult_mod_eq [symmetric])
    have 2: "r = t + k * b" unfolding t_def k_def by (rule mod_div_mult_eq [symmetric])
    show ?thesis unfolding 1 2 by (simp only: mult.assoc add.assoc)
  qed
  ultimately show ?thesis by blast
qed

lemma all_outputs_covered:
  assumes ok: "config_ok c" and L: "launch_ok c L"
    and y: "y < image_height c" and x: "x < image_width c"
  shows "\<exists>bidy<grid_dim_y L. \<exists>bidx<grid_dim_x L. block_outputs c L bidy bidx (y, x)"
proof -
  have my: "0 < block_size_y c * tile_size_y c" and mx: "0 < block_size_x c * tile_size_x c"
    and sy: "0 < block_size_y c" and sx: "0 < block_size_x c"
    using ok by (simp_all add: config_ok_def)
  have "y < grid_dim_y L * (block_size_y c * tile_size_y c)"
    using y ceil_div_covers [OF my, of "image_height c"] L by (simp add: launch_ok_def)
  from tile_decompose [OF sy this] obtain bidy ty yi where
    Y: "bidy < grid_dim_y L" "ty < block_size_y c" "yi < tile_size_y c"
      "y = bidy * block_size_y c * tile_size_y c + ty + yi * block_size_y c"
    by blast
  have "x < grid_dim_x L * (block_size_x c * tile_size_x c)"
    using x ceil_div_covers [OF mx, of "image_width c"] L by (simp add: launch_ok_def)
  from tile_decompose [OF sx this] obtain bidx tx xi where
    X: "bidx < grid_dim_x L" "tx < block_size_x c" "xi < tile_size_x c"
      "x = bidx * block_size_x c * tile_size_x c + tx + xi * block_size_x c"
    by blast
  have dims: "block_dim_y L = block_size_y c" "block_dim_x L = block_size_x c"
    using L by (simp_all add: launch_ok_def)
  have "thread_outputs c (bidy * block_size_y c * tile_size_y c)
          (bidx * block_size_x c * tile_size_x c) ty tx (y, x)"
    unfolding thread_outputs_def using Y(3,4) X(3,4) y x by auto
  with Y(1,2) X(1,2) dims show ?thesis unfolding block_outputs_def by auto
qed

text \<open>
  The tiled kernel, in the variant the configuration selects or, when the blocks tile the
  image exactly, in either variant: with buffers of the sizes of the data contract and
  the launch it is written for, it returns without a fault and every output element holds
  its weighted sum, whatever the shared memory and the registers held before.
\<close>

lemma tiled_kernel_correct:
  assumes ok: "config_ok c" and L: "launch_ok c L"
    and len: "length input = input_height c * input_width c"
    and lenf: "length d_filter = filter_height c * filter_width c"
    and mode: "chk \<or> \<not> boundary_mode c"
    and I: "length (output_buf s) = image_height c * image_width c"
  shows "\<exists>s'. tiled_kernel chk c L garbage input d_filter filter_arg s = Some (Inr s') \<and>
      length (output_buf s') = image_height c * image_width c \<and>
      (\<forall>y<image_height c. \<forall>x<image_width c.
         output_buf s' ! (y * image_width c + x) = conv_at c input d_filter y x)"
proof -
  from tiled_kernel_cover [OF assms, of garbage filter_arg] obtain s' where
    r: "tiled_kernel chk c L garbage input d_filter filter_arg s = Some (Inr s')"
    and l: "length (output_buf s') = image_height c * image_width c"
    and c: "\<forall>p. out_done c input d_filter p s \<or>
           (\<exists>bidy<grid_dim_y L. \<exists>bidx<grid_dim_x L. block_outputs c L bidy bidx p)
         \<longrightarrow> out_done c input d_filter p s'"
    by (elim exE conjE)
  have "output_buf s' ! (y * image_width c + x) = conv_at c input d_filter y x"
    if "y < image_height c" "x < image_width c" for y x
  proof -
    from c all_outputs_covered [OF ok L that] have "out_done c input d_filter (y, x) s'"
      by blast
    then show ?thesis by (simp add: out_done_def)
  qed
  with r l show ?thesis by blast
qed


section \<open>The whole naive kernel\<close>

lemma naive_thread_cover:
  assumes len: "length input = input_height c * input_width c"
    and lenf: "length filter_buf = filter_height c * filter_width c"
    and I: "length (output_buf s) = image_height c * image_width c"
  shows "\<exists>s'. naive_thread c input filter_buf (int y) (int x) s = Some (Inr s') \<and>
      length (output_buf s') = image_height c * image_width c \<and>
      (\<forall>p. out_done c input filter_buf p s \<or>
           (p = (y, x) \<and> fst p < image_height c \<and> snd p < image_width c)
         \<longrightarrow> out_done c input filter_buf p s')"
proof (cases "y < image_height c \<and> x < image_width c")
  case True
  then have y: "y < image_height c" and x: "x < image_width c" by simp_all
  from out_done_write [OF I y x refl, of input filter_buf]
    naive_sum_eq [OF len lenf y x] True I
  show ?thesis by (auto simp: naive_thread_def)
next
  case False
  then show ?thesis using I by (auto simp: naive_thread_def)
qed

lemma convolution_naive_cover:
  assumes len: "length input = input_height c * input_width c"
    and lenf: "length filter_buf = filter_height c * filter_width c"
    and fits: "grid_dim_x L * block_dim_x L \<le> 2 ^ 31" "grid_dim_y L * block_dim_y L \<le> 2 ^ 31"
    and I: "length (output_buf s) = image_height c * image_width c"
  shows "\<exists>s'. convolution_naive c L input filter_buf s = Some (Inr s') \<and>
      length (output_buf s') = image_height c * image_width c \<and>
      (\<forall>p. out_done c input filter_buf p s \<or>
           (\<exists>bidy<grid_dim_y L. \<exists>bidx<grid_dim_x L.
            \<exists>tidy<block_dim_y L. \<exists>tidx<block_dim_x L.
              p = (bidy * block_dim_y L + tidy, bidx * block_dim_x L + tidx) \<and>
              fst p < image_height c \<and> snd p < image_width c)
         \<longrightarrow> out_done c input filter_buf p s')"
proof -
  let ?I = "\<lambda>t. length (output_buf t) = image_height c * image_width c"
  let ?Q = "out_done c input filter_buf"
  let ?D4 = "\<lambda>bidy bidx tidy tidx p.
              p = (bidy * block_dim_y L + tidy, bidx * block_dim_x L + tidx) \<and>
              fst p < image_height c \<and> snd p < image_width c"
  let ?D3 = "\<lambda>bidy bidx tidy p. \<exists>tidx<block_dim_x L. ?D4 bidy bidx tidy tidx p"
  let ?D2 = "\<lambda>bidy bidx p. \<exists>tidy<block_dim_y L. ?D3 bidy bidx tidy p"
  let ?D1 = "\<lambda>bidy p. \<exists>bidx<grid_dim_x L. ?D2 bidy bidx p"
  have th: "\<exists>t'. naive_thread c input filter_buf
            (unsigned_to_int (bidy * block_dim_y L + tidy))
            (unsigned_to_int (bidx * block_dim_x L + tidx)) t
          = Some (Inr t') \<and> ?I t' \<and> (\<forall>p. ?Q p t \<or> ?D4 bidy bidx tidy tidx p \<longrightarrow> ?Q p t')"
    if "bidy < grid_dim_y L" "bidx < grid_dim_x L" "tidy < block_dim_y L" "tidx < block_dim_x L"
      "?I t" for bidy bidx tidy tidx t
    unfolding thread_coordinate_fits [OF that(1,3) fits(2)]
      thread_coordinate_fits [OF that(2,4) fits(1)]
    by (rule naive_thread_cover [OF len lenf that(5)])
  have l4: "\<exists>t'. for_loop (\<lambda>tidx. naive_thread c input filter_buf
            (unsigned_to_int (bidy * block_dim_y L + tidy))
            (unsigned_to_int (bidx * block_dim_x L + tidx))) 0 (block_dim_x L) 1 t
          = Some (Inr t') \<and> ?I t' \<and> (\<forall>p. ?Q p t \<or> ?D3 bidy bidx tidy p \<longrightarrow> ?Q p t')"
    if "bidy < grid_dim_y L" "bidx < grid_dim_x L" "tidy < block_dim_y L" "?I t"
    for bidy bidx tidy t
    by (rule for_loop_cover_upto [where I = ?I and Q = ?Q and D = "?D4 bidy bidx tidy",
          OF that(4)])
       (rule th [OF that(1,2,3)])
  have l3: "\<exists>t'. for_loop (\<lambda>tidy. for_loop (\<lambda>tidx. naive_thread c input filter_buf
            (unsigned_to_int (bidy * block_dim_y L + tidy))
            (unsigned_to_int (bidx * block_dim_x L + tidx))) 0 (block_dim_x L) 1)
            0 (block_dim_y L) 1 t
          = Some (Inr t') \<and> ?I t' \<and> (\<forall>p. ?Q p t \<or> ?D2 bidy bidx p \<longrightarrow> ?Q p t')"
    if "bidy < grid_dim_y L" "bidx < grid_dim_x L" "?I t" for bidy bidx t
    by (rule for_loop_cover_upto [where I = ?I and Q = ?Q and D = "?D3 bidy bidx", OF that(3)])
       (rule l4 [OF that(1,2)])
  have l2: "\<exists>t'. for_loop (\<lambda>bidx. for_loop (\<lambda>tidy. for_loop (\<lambda>tidx.
            naive_thread c input filter_buf
            (unsigned_to_int (bidy * block_dim_y L + tidy))
            (unsigned_to_int (bidx * block_dim_x L + tidx))) 0 (block_dim_x L) 1)
            0 (block_dim_y L) 1) 0 (grid_dim_x L) 1 t
          = Some (Inr t') \<and> ?I t' \<and> (\<forall>p. ?Q p t \<or> ?D1 bidy p \<longrightarrow> ?Q p t')"
    if "bidy < grid_dim_y L" "?I t" for bidy t
    by (rule for_loop_cover_upto [where I = ?I and Q = ?Q and D = "?D2 bidy", OF that(2)])
       (rule l3 [OF that(1)])
  show ?thesis
    unfolding convolution_naive_def
    by (rule for_loop_cover_upto [where I = ?I and Q = ?Q and D = ?D1, OF I]) (rule l2)
qed

lemma thread_decompose:
  fixes y g b :: nat
  assumes "y < g * b"
  shows "\<exists>bid<g. \<exists>t<b. y = bid * b + t"
proof -
  from assms have b: "0 < b" by (cases "b = 0") simp_all
  have "y div b < g" using assms by (rule less_mult_imp_div_less)
  moreover have "y mod b < b" using b by simp
  moreover have "y = y div b * b + y mod b" by (rule div_mult_mod_eq [symmetric])
  ultimately show ?thesis by blast
qed

text \<open>
  The naive kernel, with buffers of the sizes of the data contract and a launch that
  covers the image: it returns without a fault and every output element holds its
  weighted sum.
\<close>

lemma convolution_naive_correct:
  assumes L: "naive_launch_ok c L"
    and len: "length input = input_height c * input_width c"
    and lenf: "length filter_buf = filter_height c * filter_width c"
    and I: "length (output_buf s) = image_height c * image_width c"
  shows "\<exists>s'. convolution_naive c L input filter_buf s = Some (Inr s') \<and>
      length (output_buf s') = image_height c * image_width c \<and>
      (\<forall>y<image_height c. \<forall>x<image_width c.
         output_buf s' ! (y * image_width c + x) = conv_at c input filter_buf y x)"
proof -
  from L have fits: "grid_dim_x L * block_dim_x L \<le> 2 ^ 31"
      "grid_dim_y L * block_dim_y L \<le> 2 ^ 31"
    by (simp_all add: naive_launch_ok_def)
  from convolution_naive_cover [OF len lenf fits I] obtain s' where
    r: "convolution_naive c L input filter_buf s = Some (Inr s')"
    and l: "length (output_buf s') = image_height c * image_width c"
    and c: "\<forall>p. out_done c input filter_buf p s \<or>
           (\<exists>bidy<grid_dim_y L. \<exists>bidx<grid_dim_x L.
            \<exists>tidy<block_dim_y L. \<exists>tidx<block_dim_x L.
              p = (bidy * block_dim_y L + tidy, bidx * block_dim_x L + tidx) \<and>
              fst p < image_height c \<and> snd p < image_width c)
         \<longrightarrow> out_done c input filter_buf p s'"
    by (elim exE conjE)
  have "output_buf s' ! (y * image_width c + x) = conv_at c input filter_buf y x"
    if y: "y < image_height c" and x: "x < image_width c" for y x
  proof -
    have "y < grid_dim_y L * block_dim_y L" "x < grid_dim_x L * block_dim_x L"
      using L y x by (simp_all add: naive_launch_ok_def)
    from thread_decompose [OF this(1)] thread_decompose [OF this(2)]
    obtain bidy tidy bidx tidx where
      "bidy < grid_dim_y L" "tidy < block_dim_y L" "y = bidy * block_dim_y L + tidy"
      "bidx < grid_dim_x L" "tidx < block_dim_x L" "x = bidx * block_dim_x L + tidx"
      by blast
    with y x have "\<exists>bidy<grid_dim_y L. \<exists>bidx<grid_dim_x L.
            \<exists>tidy<block_dim_y L. \<exists>tidx<block_dim_x L.
              (y, x) = (bidy * block_dim_y L + tidy, bidx * block_dim_x L + tidx) \<and>
              fst (y, x) < image_height c \<and> snd (y, x) < image_width c"
      by auto
    with c have "out_done c input filter_buf (y, x) s'" by blast
    then show ?thesis by (simp add: out_done_def)
  qed
  with r l show ?thesis by blast
qed


section \<open>The tiled kernel against the naive kernel\<close>

text \<open>
  With the same input and with \<^verbatim>\<open>d_filter\<close> holding the coefficients the naive kernel
  is given, the two kernels leave the same output buffer. No law of arithmetic is used:
  both kernels add the products for an output element in the same order.
\<close>

lemma kernels_agree:
  assumes ok: "config_ok c" and L: "launch_ok c L" and Ln: "naive_launch_ok c Ln"
    and len: "length input = input_height c * input_width c"
    and lenf: "length filter_buf = filter_height c * filter_width c"
    and mode: "chk \<or> \<not> boundary_mode c"
    and I: "length (output_buf s) = image_height c * image_width c"
    and In: "length (output_buf sn) = image_height c * image_width c"
  shows "\<exists>s' sn'. tiled_kernel chk c L garbage input filter_buf filter_arg s = Some (Inr s') \<and>
      convolution_naive c Ln input filter_buf sn = Some (Inr sn') \<and>
      output_buf s' = output_buf sn' \<and>
      length (output_buf s') = image_height c * image_width c \<and>
      (\<forall>y<image_height c. \<forall>x<image_width c.
         output_buf s' ! (y * image_width c + x) = conv_at c input filter_buf y x)"
proof -
  from tiled_kernel_correct [OF ok L len lenf mode I, of garbage filter_arg] obtain s' where
    t: "tiled_kernel chk c L garbage input filter_buf filter_arg s = Some (Inr s')"
    and tl: "length (output_buf s') = image_height c * image_width c"
    and tv: "\<And>y x. y < image_height c \<Longrightarrow> x < image_width c \<Longrightarrow>
         output_buf s' ! (y * image_width c + x) = conv_at c input filter_buf y x"
    by blast
  from convolution_naive_correct [OF Ln len lenf In] obtain sn' where
    n: "convolution_naive c Ln input filter_buf sn = Some (Inr sn')"
    and nl: "length (output_buf sn') = image_height c * image_width c"
    and nv: "\<And>y x. y < image_height c \<Longrightarrow> x < image_width c \<Longrightarrow>
         output_buf sn' ! (y * image_width c + x) = conv_at c input filter_buf y x"
    by blast
  have "output_buf s' = output_buf sn'"
  proof (rule nth_equalityI)
    show "length (output_buf s') = length (output_buf sn')" using tl nl by simp
    fix k assume "k < length (output_buf s')"
    then have k: "k < image_height c * image_width c" using tl by simp
    then have w: "0 < image_width c" by (cases "image_width c = 0") simp_all
    have y: "k div image_width c < image_height c"
      using k by (simp add: less_mult_imp_div_less)
    have x: "k mod image_width c < image_width c" using w by simp
    have e: "k div image_width c * image_width c + k mod image_width c = k" by simp
    from tv [OF y x] nv [OF y x] show "output_buf s' ! k = output_buf sn' ! k"
      unfolding e by simp
  qed
  with t n tl tv show ?thesis by blast
qed

text \<open>
  C1. With exact arithmetic (any commutative monoid under addition with a product, such
  as the rationals or the reals), the same input buffer and \<^verbatim>\<open>d_filter\<close> holding the
  coefficients the naive kernel is given, both kernels complete, and for every output
  element \<open>(y, x)\<close> with \<open>y < image_height\<close> and \<open>x < image_width\<close> both leave the sum over
  \<open>(j, i)\<close> of \<^verbatim>\<open>input[y+j][x+i] * filter[j][i]\<close> in \<^verbatim>\<open>output[y][x]\<close>: the two output
  buffers are equal.
\<close>

theorem tiled_matches_naive:
  fixes input :: "'a::{comm_monoid_add,times} list"
  assumes "config_ok c" and "launch_ok c L" and "naive_launch_ok c Ln"
    and "length input = input_height c * input_width c"
    and "length filter_buf = filter_height c * filter_width c"
    and "length (output_buf s) = image_height c * image_width c"
    and "length (output_buf sn) = image_height c * image_width c"
  shows "\<exists>s' sn'. convolution_kernel c L garbage input filter_buf filter_arg s = Some (Inr s') \<and>
      convolution_naive c Ln input filter_buf sn = Some (Inr sn') \<and>
      output_buf s' = output_buf sn' \<and>
      (\<forall>y<image_height c. \<forall>x<image_width c.
         output_buf s' ! (y * image_width c + x) = weighted_sum c input filter_buf y x \<and>
         output_buf sn' ! (y * image_width c + x) = weighted_sum c input filter_buf y x)"
proof -
  have mode: "boundary_mode c \<or> \<not> boundary_mode c" by simp
  from kernels_agree [OF assms(1-5) mode assms(6,7), of garbage filter_arg]
  show ?thesis
    unfolding convolution_kernel_def conv_at_weighted_sum by metis
qed

theorem tiled_matches_naive_witness:
  "config_ok edge_cfg \<and> launch_ok edge_cfg edge_launch \<and> naive_launch_ok edge_cfg edge_launch \<and>
   length [10, 20, 30 :: int] = input_height edge_cfg * input_width edge_cfg \<and>
   length [2 :: int] = filter_height edge_cfg * filter_width edge_cfg \<and>
   length (output_buf (launch_state [0, 0, 0 :: int] (\<lambda>_. 0))) =
     image_height edge_cfg * image_width edge_cfg \<and>
   length (output_buf (launch_mem [0, 0, 0 :: int])) =
     image_height edge_cfg * image_width edge_cfg \<and>
   (\<exists>s' sn'.
      convolution_kernel edge_cfg edge_launch (\<lambda>_ _. 7) [10, 20, 30 :: int] [2] [5]
        (launch_state [0, 0, 0] (\<lambda>_. 0)) = Some (Inr s') \<and>
      convolution_naive edge_cfg edge_launch [10, 20, 30 :: int] [2] (launch_mem [0, 0, 0])
        = Some (Inr sn') \<and>
      output_buf s' = output_buf sn' \<and>
      (\<forall>y<image_height edge_cfg. \<forall>x<image_width edge_cfg.
         output_buf s' ! (y * image_width edge_cfg + x) =
           weighted_sum edge_cfg [10, 20, 30] [2] y x \<and>
         output_buf sn' ! (y * image_width edge_cfg + x) =
           weighted_sum edge_cfg [10, 20, 30] [2] y x) \<and>
      output_buf s' ! 2 = 60)"
proof -
  have h: "config_ok edge_cfg" "launch_ok edge_cfg edge_launch"
    "naive_launch_ok edge_cfg edge_launch"
    "length [10, 20, 30 :: int] = input_height edge_cfg * input_width edge_cfg"
    "length [2 :: int] = filter_height edge_cfg * filter_width edge_cfg"
    "length (output_buf (launch_state [0, 0, 0 :: int] (\<lambda>_. 0))) =
       image_height edge_cfg * image_width edge_cfg"
    "length (output_buf (launch_mem [0, 0, 0 :: int])) =
       image_height edge_cfg * image_width edge_cfg"
    by (simp_all add: geometry_defs instance_defs launch_state_def launch_mem_def)
  let ?inp = "[10, 20, 30 :: int]" and ?flt = "[2 :: int]"
  from tiled_matches_naive [OF h, of "\<lambda>_ _. 7" "[5]"] obtain s' sn' where
    r: "convolution_kernel edge_cfg edge_launch (\<lambda>_ _. 7) ?inp ?flt [5]
        (launch_state [0, 0, 0] (\<lambda>_. 0)) = Some (Inr s')"
      "convolution_naive edge_cfg edge_launch ?inp ?flt (launch_mem [0, 0, 0])
        = Some (Inr sn')"
      "output_buf s' = output_buf sn'"
    and v: "\<forall>y<image_height edge_cfg. \<forall>x<image_width edge_cfg.
         output_buf s' ! (y * image_width edge_cfg + x) =
           weighted_sum edge_cfg ?inp ?flt y x \<and>
         output_buf sn' ! (y * image_width edge_cfg + x) =
           weighted_sum edge_cfg ?inp ?flt y x"
    by blast
  from v have "output_buf s' ! (2 * image_width edge_cfg + 0) =
      weighted_sum edge_cfg ?inp ?flt 2 0"
    by (simp add: edge_cfg_def)
  then have "output_buf s' ! 2 = 60"
    by (simp add: weighted_sum_def geometry_defs edge_cfg_def)
  with h r v show ?thesis by blast
qed

section \<open>Determinism\<close>

text \<open>
  C8. Each kernel is deterministic in what it leaves in the output buffer. Two runs of
  the tiled kernel in the same variant, on the same input and the same \<^verbatim>\<open>d_filter\<close>,
  complete with equal output buffers whatever the shared memory held at the start of
  each block, whatever the registers and the output buffer held, and whatever is passed
  as filter argument; two runs of the naive kernel on the same input and filter complete
  with equal output buffers whatever the output buffer held. No law of arithmetic is
  assumed, so the equality is one of the values as computed.
\<close>

theorem kernels_deterministic:
  assumes "config_ok c" and "launch_ok c L" and "naive_launch_ok c Ln"
    and "length input = input_height c * input_width c"
    and "length d_filter = filter_height c * filter_width c"
    and "chk \<or> \<not> boundary_mode c"
    and "length (output_buf s1) = image_height c * image_width c"
    and "length (output_buf s2) = image_height c * image_width c"
    and "length (output_buf sn1) = image_height c * image_width c"
    and "length (output_buf sn2) = image_height c * image_width c"
  shows "\<exists>out.
      map_option (map_sum id output_buf)
        (tiled_kernel chk c L garbage1 input d_filter filter1 s1) = Some (Inr out) \<and>
      map_option (map_sum id output_buf)
        (tiled_kernel chk c L garbage2 input d_filter filter2 s2) = Some (Inr out) \<and>
      map_option (map_sum id output_buf)
        (convolution_naive c Ln input d_filter sn1) = Some (Inr out) \<and>
      map_option (map_sum id output_buf)
        (convolution_naive c Ln input d_filter sn2) = Some (Inr out)"
proof -
  from kernels_agree [OF assms(1-6) assms(7) assms(9), of garbage1 filter1] obtain t1 n1 where
    a: "tiled_kernel chk c L garbage1 input d_filter filter1 s1 = Some (Inr t1)"
      "convolution_naive c Ln input d_filter sn1 = Some (Inr n1)"
      "output_buf t1 = output_buf n1"
    by blast
  from kernels_agree [OF assms(1-6) assms(8) assms(9), of garbage2 filter2] obtain t2 n1' where
    b: "tiled_kernel chk c L garbage2 input d_filter filter2 s2 = Some (Inr t2)"
      "convolution_naive c Ln input d_filter sn1 = Some (Inr n1')"
      "output_buf t2 = output_buf n1'"
    by blast
  from kernels_agree [OF assms(1-6) assms(7) assms(10), of garbage1 filter1] obtain t1' n2 where
    d: "tiled_kernel chk c L garbage1 input d_filter filter1 s1 = Some (Inr t1')"
      "convolution_naive c Ln input d_filter sn2 = Some (Inr n2)"
      "output_buf t1' = output_buf n2"
    by blast
  from a b d show ?thesis by simp
qed

theorem kernels_deterministic_witness:
  "config_ok edge_cfg \<and> launch_ok edge_cfg edge_launch \<and> naive_launch_ok edge_cfg edge_launch \<and>
   length [10, 20, 30 :: int] = input_height edge_cfg * input_width edge_cfg \<and>
   length [2 :: int] = filter_height edge_cfg * filter_width edge_cfg \<and>
   (True \<or> \<not> boundary_mode edge_cfg) \<and>
   (\<exists>out.
      map_option (map_sum id output_buf)
        (tiled_kernel True edge_cfg edge_launch (\<lambda>_ _. 7) [10, 20, 30 :: int] [2] [5]
           (launch_state [0, 0, 0] (\<lambda>_. 0))) = Some (Inr out) \<and>
      map_option (map_sum id output_buf)
        (tiled_kernel True edge_cfg edge_launch (\<lambda>_ _. 99) [10, 20, 30 :: int] [2] []
           (launch_state [1, 2, 3] (\<lambda>_. 4))) = Some (Inr out) \<and>
      map_option (map_sum id output_buf)
        (convolution_naive edge_cfg edge_launch [10, 20, 30 :: int] [2] (launch_mem [0, 0, 0]))
        = Some (Inr out) \<and>
      map_option (map_sum id output_buf)
        (convolution_naive edge_cfg edge_launch [10, 20, 30 :: int] [2] (launch_mem [8, 8, 8]))
        = Some (Inr out))"
  using kernels_deterministic [where c = edge_cfg and L = edge_launch and Ln = edge_launch
      and input = "[10, 20, 30 :: int]" and d_filter = "[2]" and chk = True
      and ?s1.0 = "launch_state [0, 0, 0] (\<lambda>_. 0)" and ?s2.0 = "launch_state [1, 2, 3] (\<lambda>_. 4)"
      and ?sn1.0 = "launch_mem [0, 0, 0]" and ?sn2.0 = "launch_mem [8, 8, 8]"
      and ?garbage1.0 = "\<lambda>_ _. 7" and ?garbage2.0 = "\<lambda>_ _. 99"
      and ?filter1.0 = "[5]" and ?filter2.0 = "[]"]
  by (simp add: geometry_defs instance_defs launch_state_def launch_mem_def)


section \<open>Which positions of the shared memory the accumulation reads\<close>

lemma bind_res_InrE:
  assumes "bind_res m k = Some (Inr s')"
  obtains t where "m = Some (Inr t)" and "k t = Some (Inr s')"
  using assms by (auto simp: bind_res_def split: option.splits sum.splits)

lemma zero_sums_reads:
  assumes I: "reads_logged c ty tx old s" and r: "zero_sums c s = Some (Inr s')"
  shows "reads_logged c ty tx old s'"
proof -
  let ?I = "reads_logged c ty tx old"
  have row: "?I t'"
    if "for_loop (\<lambda>xi s. Some (Inr (s\<lparr>sum_reg := (sum_reg s)((yi, xi) := 0)\<rparr>)))
          0 (tile_size_x c) 1 t = Some (Inr t')" "?I t" for yi t t'
    by (rule for_loop_inv [where I = ?I, OF zero_less_one that(2) _ that(1)])
       (auto simp: reads_logged_def)
  show ?thesis
    by (rule for_loop_inv [where I = ?I, OF zero_less_one I _ r [unfolded zero_sums_def]])
       (rule row)
qed

lemma acc_elem_reads:
  assumes I: "reads_logged c ty tx old s"
    and b: "i < filter_height c" "j < filter_width c" "yi < tile_size_y c" "xi < tile_size_x c"
    and r: "acc_elem c d_filter junk ty tx i j yi xi s = Some (Inr s')"
  shows "reads_logged c ty tx old s'"
proof -
  from r have eq: "sh_reads s' = sh_reads s @
      [(yi, xi, ty + yi * block_size_y c + i, tx + xi * block_size_x c + j)]"
    by (auto simp: acc_elem_def sh_load_def load_def split: if_splits)
  show ?thesis
    unfolding reads_logged_def
  proof
    fix e assume "e \<in> set (sh_reads s')"
    then consider "e \<in> set (sh_reads s)"
      | "e = (yi, xi, ty + yi * block_size_y c + i, tx + xi * block_size_x c + j)"
      unfolding eq by auto
    then show "e \<in> set old \<or>
        (\<exists>yi<tile_size_y c. \<exists>xi<tile_size_x c. \<exists>i<filter_height c. \<exists>j<filter_width c.
           e = (yi, xi, ty + yi * block_size_y c + i, tx + xi * block_size_x c + j))"
    proof cases
      case 1
      with I show ?thesis unfolding reads_logged_def by blast
    next
      case 2
      with b show ?thesis by blast
    qed
  qed
qed

lemma accumulate_reads:
  assumes I: "reads_logged c ty tx old s"
    and r: "accumulate c d_filter junk ty tx s = Some (Inr s')"
  shows "reads_logged c ty tx old s'"
proof -
  let ?I = "reads_logged c ty tx old"
  have l4: "?I t'"
    if "for_loop (\<lambda>xi. acc_elem c d_filter junk ty tx i j yi xi) 0 (tile_size_x c) 1 t
          = Some (Inr t')" "?I t" "i < filter_height c" "j < filter_width c"
      "yi < tile_size_y c" for i j yi t t'
    by (rule for_loop_inv [where I = ?I, OF zero_less_one that(2) _ that(1)])
       (rule acc_elem_reads [OF _ that(3,4,5)])
  have l3: "?I t'"
    if "for_loop (\<lambda>yi. for_loop (\<lambda>xi. acc_elem c d_filter junk ty tx i j yi xi)
          0 (tile_size_x c) 1) 0 (tile_size_y c) 1 t = Some (Inr t')" "?I t"
      "i < filter_height c" "j < filter_width c" for i j t t'
    by (rule for_loop_inv [where I = ?I, OF zero_less_one that(2) _ that(1)])
       (rule l4 [OF _ _ that(3,4)])
  have l2: "?I t'"
    if "for_loop (\<lambda>j. for_loop (\<lambda>yi. for_loop (\<lambda>xi. acc_elem c d_filter junk ty tx i j yi xi)
          0 (tile_size_x c) 1) 0 (tile_size_y c) 1) 0 (filter_width c) 1 t = Some (Inr t')"
      "?I t" "i < filter_height c" for i t t'
    by (rule for_loop_inv [where I = ?I, OF zero_less_one that(2) _ that(1)])
       (rule l3 [OF _ _ that(3)])
  show ?thesis
    by (rule for_loop_inv [where I = ?I, OF zero_less_one I _ r [unfolded accumulate_def]])
       (rule l2)
qed

lemma store_sums_reads:
  assumes I: "reads_logged c ty tx old s"
    and r: "store_sums chk c (int b_y) (int b_x) ty' tx' s = Some (Inr s')"
  shows "reads_logged c ty tx old s'"
proof -
  let ?I = "reads_logged c ty tx old"
  have el: "?I t'" if "store_elem chk c (int b_y) (int b_x) ty' tx' yi xi t = Some (Inr t')" "?I t"
    for yi xi t t'
    using that
    by (auto simp: store_elem_def write_output_def Let_def reads_logged_def split: if_splits)
  have row: "?I t'"
    if "for_loop (\<lambda>xi. store_elem chk c (int b_y) (int b_x) ty' tx' yi xi) 0 (tile_size_x c) 1 t
          = Some (Inr t')" "?I t" for yi t t'
    by (rule for_loop_inv [where I = ?I, OF zero_less_one that(2) _ that(1)]) (rule el)
  show ?thesis
    by (rule for_loop_inv [where I = ?I, OF zero_less_one I _ r [unfolded store_sums_def]])
       (rule row)
qed

lemma compute_thread_reads:
  assumes r: "compute_thread chk c d_filter junk (int b_y) (int b_x) ty tx s = Some (Inr s')"
  shows "reads_logged c ty tx (sh_reads s) s'"
proof -
  from r [unfolded compute_thread_def] obtain s1 s2 where
    z: "zero_sums c s = Some (Inr s1)" and a: "accumulate c d_filter junk ty tx s1 = Some (Inr s2)"
    and st: "store_sums chk c (int b_y) (int b_x) ty tx s2 = Some (Inr s')"
    by (elim bind_res_InrE)
  have "reads_logged c ty tx (sh_reads s) s" by (simp add: reads_logged_def)
  from store_sums_reads [OF accumulate_reads [OF zero_sums_reads [OF this z] a] st]
  show ?thesis .
qed

text \<open>
  C6, as stated, fails. Take the \<open>3 \<times> 1\<close> image with blocks of two rows, and its
  second block (origin row \<open>2\<close>). The staging loop of thread \<open>(1, 0)\<close> visits position
  \<open>(1, 0)\<close> of the shared memory and skips it, since its global row \<open>2 + 1\<close> is not
  below \<open>input_height = 3\<close>; after the staging phase of the block that position is still
  unwritten. The accumulation loops of the same thread have no guard: they read position
  \<open>(1, 0)\<close> for register \<open>(0, 0)\<close>, and the register ends up holding the product of
  whatever the shared memory held (here \<open>7\<close>) with the coefficient \<open>2\<close>.
\<close>

theorem skipped_position_is_read:
  "(case stage_block True edge_cfg edge_launch [10, 20, 30 :: int] 2 0
           (launch_state [0, 0, 0] (\<lambda>_. 0)) of
      Some (Inr s1) \<Rightarrow>
        sh_input s1 (1, 0) = None \<and>
        (case compute_thread True edge_cfg [2] (\<lambda>_. 7) 2 0 1 0 s1 of
           Some (Inr s2) \<Rightarrow> (0, 0, 1, 0) \<in> set (sh_reads s2) \<and> sum_reg s2 (0, 0) = 14
         | _ \<Rightarrow> False)
    | _ \<Rightarrow> False) \<and>
   boundary_mode edge_cfg \<and> 1 < i_end edge_cfg \<and> \<not> 2 + 1 < input_height edge_cfg"
  by (simp add: kernel_defs geometry_defs instance_defs for_loop.simps)

text \<open>
  C6, amended. Take a configuration with non-zero \<^verbatim>\<open>block_size * tile_size\<close>, an input
  buffer of \<open>input_height * input_width\<close> elements, a launch with one thread per
  \<^verbatim>\<open>block_size\<close> position (\<^verbatim>\<open>blockDim = (block_size_x, block_size_y)\<close>) and a block
  whose origin \<open>(b_y, b_x)\<close> is non-negative, that is, whose unsigned products of lines
  19-20 did not wrap around into a negative \<^verbatim>\<open>int\<close>. In the boundary-checked variant
  (and in the unconditional one for a block inside the image): every position \<open>(r, q)\<close>
  of the shared memory that the accumulation loops of a thread read for a register
  \<open>(yi, xi)\<close> whose output coordinates \<open>b_y + ty + yi * block_size_y\<close> and
  \<open>b_x + tx + xi * block_size_x\<close> are inside the image has been written by the staging
  phase of the block, with the input element
  \<^verbatim>\<open>input[(b_y + r) * input_width + (b_x + q)]\<close>. A position that the staging phase
  skipped is therefore read only for registers whose output coordinates are outside the
  image.
\<close>

theorem reads_for_image_outputs_are_staged:
  assumes "config_ok c"
    and "block_dim_y L = block_size_y c" and "block_dim_x L = block_size_x c"
    and "length input = input_height c * input_width c"
    and "chk \<or> block_inside c b_y b_x"
    and "stage_block chk c L input (int b_y) (int b_x) s0 = Some (Inr s1)"
    and "ty < block_size_y c" and "tx < block_size_x c"
    and "sh_input s = sh_input s1"
    and "compute_thread chk c d_filter junk (int b_y) (int b_x) ty tx s = Some (Inr s2)"
    and "(yi, xi, r, q) \<in> set (sh_reads s2) - set (sh_reads s)"
    and "b_y + ty + yi * block_size_y c < image_height c"
    and "b_x + tx + xi * block_size_x c < image_width c"
  shows "sh_input s (r, q) = Some (input ! ((b_y + r) * input_width c + (b_x + q)))"
proof -
  from compute_thread_reads [OF assms(10)] assms(11) obtain i j where
    b: "yi < tile_size_y c" "xi < tile_size_x c" "i < filter_height c" "j < filter_width c"
    and r: "r = ty + yi * block_size_y c + i" and q: "q = tx + xi * block_size_x c + j"
    unfolding reads_logged_def by blast
  have t: "stage_target c b_y b_x (r, q)"
    unfolding r q by (rule target_reads_staged [OF assms(7,8) b(1,2,3,4) assms(12,13)])
  from stage_block_staged [OF assms(1,2,3,4,5), of s0] assms(6)
  have "staged_at c input b_y b_x (r, q) s1" using t by auto
  then show ?thesis using assms(9) by (simp add: staged_at_def)
qed

theorem reads_for_image_outputs_are_staged_witness:
  "config_ok edge_cfg \<and>
   block_dim_y edge_launch = block_size_y edge_cfg \<and>
   block_dim_x edge_launch = block_size_x edge_cfg \<and>
   length [10, 20, 30 :: int] = input_height edge_cfg * input_width edge_cfg \<and>
   (0 :: nat) < block_size_y edge_cfg \<and> (0 :: nat) < block_size_x edge_cfg \<and>
   2 + 0 + 0 * block_size_y edge_cfg < image_height edge_cfg \<and>
   0 + 0 + 0 * block_size_x edge_cfg < image_width edge_cfg \<and>
   (\<exists>s1 s2.
      stage_block True edge_cfg edge_launch [10, 20, 30 :: int] 2 0
        (launch_state [0, 0, 0] (\<lambda>_. 0)) = Some (Inr s1) \<and>
      compute_thread True edge_cfg [2] (\<lambda>_. 7) 2 0 0 0 s1 = Some (Inr s2) \<and>
      (0, 0, 0, 0) \<in> set (sh_reads s2) - set (sh_reads s1) \<and>
      sh_input s1 (0, 0) = Some 30)"
proof -
  let ?inp = "[10, 20, 30 :: int]"
  have h: "config_ok edge_cfg" "block_dim_y edge_launch = block_size_y edge_cfg"
    "block_dim_x edge_launch = block_size_x edge_cfg"
    "length ?inp = input_height edge_cfg * input_width edge_cfg"
    "True \<or> block_inside edge_cfg 2 0"
    by (simp_all add: geometry_defs instance_defs)
  have g: "(0 :: nat) < block_size_y edge_cfg" "(0 :: nat) < block_size_x edge_cfg"
    "2 + 0 + 0 * block_size_y edge_cfg < image_height edge_cfg"
    "0 + 0 + 0 * block_size_x edge_cfg < image_width edge_cfg"
    by (simp_all add: edge_cfg_def)
  have o: "int 2 = 2" "int 0 = 0" by simp_all
  have "\<exists>s1 s2. stage_block True edge_cfg edge_launch ?inp (int 2) (int 0)
        (launch_state [0, 0, 0] (\<lambda>_. 0)) = Some (Inr s1) \<and>
      compute_thread True edge_cfg [2] (\<lambda>_. 7) (int 2) (int 0) 0 0 s1 = Some (Inr s2) \<and>
      (0, 0, 0, 0) \<in> set (sh_reads s2) - set (sh_reads s1)"
    by (simp add: kernel_defs geometry_defs instance_defs for_loop.simps)
  then obtain s1 s2 where
    e: "stage_block True edge_cfg edge_launch ?inp (int 2) (int 0)
        (launch_state [0, 0, 0] (\<lambda>_. 0)) = Some (Inr s1)"
      "compute_thread True edge_cfg [2] (\<lambda>_. 7) (int 2) (int 0) 0 0 s1 = Some (Inr s2)"
      "(0, 0, 0, 0) \<in> set (sh_reads s2) - set (sh_reads s1)"
    by blast
  from reads_for_image_outputs_are_staged [OF h e(1) g(1,2) refl e(2) e(3) g(3,4)]
  have "sh_input s1 (0, 0) = Some 30" by (simp add: geometry_defs edge_cfg_def)
  with h g e [unfolded o] show ?thesis by blast
qed

end
